theory Spec2Isabelle
  imports Complex_Main "HOL-Library.Word"
begin

section \<open>Numbers\<close>

text \<open>
  The source computes with JavaScript numbers. They are modelled as exact reals together
  with the special values of IEEE 754 that the code can produce and test: negative zero,
  the two infinities and NaN. \<open>Fin 0\<close> is the positive zero. Arithmetic on finite values is
  exact (rounding error and overflow are not modelled); every operation involving a special
  value follows IEEE 754 and the ECMAScript definitions of the \<open>Math\<close> functions.
\<close>

datatype number = Fin real | NegZero | PInf | NInf | NaN

definition isNaN :: "number \<Rightarrow> bool" where
  "isNaN a = (a = NaN)"

definition isInf :: "number \<Rightarrow> bool" where
  "isInf a = (a = PInf \<or> a = NInf)"

definition isZero :: "number \<Rightarrow> bool" where
  "isZero a = (a = Fin 0 \<or> a = NegZero)"

fun isFin :: "number \<Rightarrow> bool" where
  "isFin (Fin r) = True"
| "isFin NegZero = True"
| "isFin PInf = False"
| "isFin NInf = False"
| "isFin NaN = False"

fun val :: "number \<Rightarrow> real" where
  "val (Fin r) = r"
| "val NegZero = 0"
| "val PInf = 0"
| "val NInf = 0"
| "val NaN = 0"

fun signbit :: "number \<Rightarrow> bool" where
  "signbit (Fin r) = (r < 0)"
| "signbit NegZero = True"
| "signbit PInf = False"
| "signbit NInf = True"
| "signbit NaN = False"

definition mkZero :: "bool \<Rightarrow> number" where
  "mkZero s = (if s then NegZero else Fin 0)"

definition mkInf :: "bool \<Rightarrow> number" where
  "mkInf s = (if s then NInf else PInf)"

text \<open>A finite result \<open>r\<close>; the sign \<open>s\<close> is the sign of the zero when \<open>r = 0\<close>.\<close>

definition mkFin :: "bool \<Rightarrow> real \<Rightarrow> number" where
  "mkFin s r = (if r = 0 then mkZero s else Fin r)"

fun neg :: "number \<Rightarrow> number" where
  "neg (Fin r) = (if r = 0 then NegZero else Fin (- r))"
| "neg NegZero = Fin 0"
| "neg PInf = NInf"
| "neg NInf = PInf"
| "neg NaN = NaN"

instantiation number :: "{zero, one, plus, minus, uminus, times, inverse, ord}"
begin

definition zero_number :: number where
  "zero_number = Fin 0"

definition one_number :: number where
  "one_number = Fin 1"

definition plus_number :: "number \<Rightarrow> number \<Rightarrow> number" where
  "plus_number a b =
     (if isNaN a \<or> isNaN b then NaN
      else if isInf a then (if isInf b \<and> a \<noteq> b then NaN else a)
      else if isInf b then b
      else mkFin (signbit a \<and> signbit b) (val a + val b))"

definition uminus_number :: "number \<Rightarrow> number" where
  "uminus_number a = neg a"

definition minus_number :: "number \<Rightarrow> number \<Rightarrow> number" where
  "minus_number a b = a + neg b"

definition times_number :: "number \<Rightarrow> number \<Rightarrow> number" where
  "times_number a b =
     (if isNaN a \<or> isNaN b then NaN
      else if isInf a \<or> isInf b
        then (if isZero a \<or> isZero b then NaN else mkInf (signbit a \<noteq> signbit b))
      else mkFin (signbit a \<noteq> signbit b) (val a * val b))"

definition divide_number :: "number \<Rightarrow> number \<Rightarrow> number" where
  "divide_number a b =
     (if isNaN a \<or> isNaN b then NaN
      else if isInf a then (if isInf b then NaN else mkInf (signbit a \<noteq> signbit b))
      else if isInf b then mkZero (signbit a \<noteq> signbit b)
      else if isZero b then (if isZero a then NaN else mkInf (signbit a \<noteq> signbit b))
      else mkFin (signbit a \<noteq> signbit b) (val a / val b))"

definition inverse_number :: "number \<Rightarrow> number" where
  "inverse_number a = divide (Fin 1) a"

definition less_number :: "number \<Rightarrow> number \<Rightarrow> bool" where
  "less_number a b =
     (\<not> isNaN a \<and> \<not> isNaN b \<and>
      (a = NInf \<and> b \<noteq> NInf \<or> b = PInf \<and> a \<noteq> PInf \<or> isFin a \<and> isFin b \<and> val a < val b))"

definition less_eq_number :: "number \<Rightarrow> number \<Rightarrow> bool" where
  "less_eq_number a b =
     (\<not> isNaN a \<and> \<not> isNaN b \<and>
      (a = NInf \<or> b = PInf \<or> isFin a \<and> isFin b \<and> val a \<le> val b))"

instance ..

end

fun Math_abs :: "number \<Rightarrow> number" where
  "Math_abs (Fin r) = Fin \<bar>r\<bar>"
| "Math_abs NegZero = Fin 0"
| "Math_abs PInf = PInf"
| "Math_abs NInf = PInf"
| "Math_abs NaN = NaN"

fun Math_sqrt :: "number \<Rightarrow> number" where
  "Math_sqrt (Fin r) = (if r < 0 then NaN else Fin (sqrt r))"
| "Math_sqrt NegZero = NegZero"
| "Math_sqrt PInf = PInf"
| "Math_sqrt NInf = NaN"
| "Math_sqrt NaN = NaN"

text \<open>\<open>Math.pow\<close> with a natural exponent (the source only squares).\<close>

primrec Math_pow :: "number \<Rightarrow> nat \<Rightarrow> number" where
  "Math_pow a 0 = Fin 1"
| "Math_pow a (Suc n) = a * Math_pow a n"

text \<open>\<open>Math.round\<close>: the nearest integer, ties towards \<open>+\<infinity>\<close>; a negative argument that
  rounds to zero gives the negative zero.\<close>

fun Math_round :: "number \<Rightarrow> number" where
  "Math_round (Fin r) = mkFin (r < 0) (of_int \<lfloor>r + 1 / 2\<rfloor>)"
| "Math_round NegZero = NegZero"
| "Math_round PInf = PInf"
| "Math_round NInf = NInf"
| "Math_round NaN = NaN"

definition Math_max :: "number \<Rightarrow> number \<Rightarrow> number" where
  "Math_max a b =
     (if isNaN a \<or> isNaN b then NaN
      else if a < b then b
      else if b < a then a
      else if signbit a then b else a)"

section \<open>Geometry primitives\<close>

text \<open>The interface \<open>Point\<close>; its fields \<open>x\<close> and \<open>y\<close> are named \<open>px\<close> and \<open>py\<close> here.\<close>

record Point =
  px :: number
  py :: number

definition dist :: "Point \<Rightarrow> Point \<Rightarrow> number" where
  "dist p1 p2 = Math_sqrt (Math_pow (px p2 - px p1) 2 + Math_pow (py p2 - py p1) 2)"


section \<open>The linear solver\<close>

text \<open>
  \<open>solveMatrix\<close> mutates the arrays \<open>A\<close> and \<open>B\<close> in place; the model passes them as
  values. Every \<open>for\<close> loop of the source has fixed bounds and becomes a \<open>fold\<close> of its body
  over the list of the values of its counter. The function is private to the module and
  its only caller passes a square system (eight rows of eight entries and eight right-hand
  sides), so no index is out of range.
\<close>

type_synonym matrix = "number list list"

text \<open>The search for the pivot row: the body of the loop over \<open>k\<close> and the loop.\<close>

definition pivotStep :: "matrix \<Rightarrow> nat \<Rightarrow> nat \<Rightarrow> number \<times> nat \<Rightarrow> number \<times> nat" where
  "pivotStep A i k = (\<lambda>(maxEl, maxRow).
     if Math_abs (A ! k ! i) > maxEl then (Math_abs (A ! k ! i), k) else (maxEl, maxRow))"

definition findPivot :: "matrix \<Rightarrow> nat \<Rightarrow> nat \<Rightarrow> number \<times> nat" where
  "findPivot A i n = fold (pivotStep A i) [i + 1..<n] (Math_abs (A ! i ! i), i)"

text \<open>The exchange of the entries of column \<open>k\<close> in rows \<open>maxRow\<close> and \<open>i\<close>, and its loop.\<close>

definition swapEntry :: "nat \<Rightarrow> nat \<Rightarrow> nat \<Rightarrow> matrix \<Rightarrow> matrix" where
  "swapEntry i maxRow k A =
     (let tmp = A ! maxRow ! k;
          A1 = A[maxRow := (A ! maxRow)[k := A ! i ! k]]
      in A1[i := (A1 ! i)[k := tmp]])"

definition swapRows :: "nat \<Rightarrow> nat \<Rightarrow> nat \<Rightarrow> matrix \<Rightarrow> matrix" where
  "swapRows i maxRow n A = fold (swapEntry i maxRow) [i..<n] A"

definition swapB :: "nat \<Rightarrow> nat \<Rightarrow> number list \<Rightarrow> number list" where
  "swapB i maxRow B =
     (let tmp = B ! maxRow;
          B1 = B[maxRow := B ! i]
      in B1[i := tmp])"

text \<open>The elimination of row \<open>k\<close> with the pivot row \<open>i\<close>: the loop over \<open>j\<close> and the update
  of the right-hand side.\<close>

definition elimEntry :: "nat \<Rightarrow> nat \<Rightarrow> number \<Rightarrow> nat \<Rightarrow> matrix \<Rightarrow> matrix" where
  "elimEntry i k c j A =
     (if i = j then A[k := (A ! k)[j := 0]]
      else A[k := (A ! k)[j := A ! k ! j + c * A ! i ! j]])"

definition elimRow :: "nat \<Rightarrow> nat \<Rightarrow> nat \<Rightarrow> matrix \<times> number list \<Rightarrow> matrix \<times> number list" where
  "elimRow i n k = (\<lambda>(A, B).
     let c = (- (A ! k ! i)) / (A ! i ! i);
         A' = fold (elimEntry i k c) [i..<n] A
     in (A', B[k := B ! k + c * B ! i]))"

text \<open>One iteration of the outer loop, for column \<open>i\<close>.\<close>

definition elimStep :: "nat \<Rightarrow> nat \<Rightarrow> matrix \<times> number list \<Rightarrow> matrix \<times> number list" where
  "elimStep n i = (\<lambda>(A, B).
     let maxRow = snd (findPivot A i n);
         A1 = swapRows i maxRow n A;
         B1 = swapB i maxRow B
     in fold (elimRow i n) [i + 1..<n] (A1, B1))"

definition eliminate :: "nat \<Rightarrow> matrix \<times> number list \<Rightarrow> matrix \<times> number list" where
  "eliminate n = fold (elimStep n) [0..<n]"

text \<open>Back-substitution, for \<open>i\<close> from \<open>n - 1\<close> down to \<open>0\<close>.\<close>

definition backSum :: "matrix \<Rightarrow> nat \<Rightarrow> nat \<Rightarrow> number list \<Rightarrow> number" where
  "backSum A i n x = fold (\<lambda>j sum. sum + A ! i ! j * x ! j) [i + 1..<n] 0"

definition backStep :: "matrix \<Rightarrow> number list \<Rightarrow> nat \<Rightarrow> nat \<Rightarrow> number list \<Rightarrow> number list" where
  "backStep A B n i x = x[i := (B ! i - backSum A i n x) / (A ! i ! i)]"

definition backSubst :: "matrix \<Rightarrow> number list \<Rightarrow> nat \<Rightarrow> number list" where
  "backSubst A B n = fold (backStep A B n) (rev [0..<n]) (replicate n 0)"

definition solveMatrix :: "matrix \<Rightarrow> number list \<Rightarrow> number list" where
  "solveMatrix A B =
     (let n = length A;
          (A', B') = eliminate n (A, B)
      in backSubst A' B' n)"

section \<open>The perspective warp\<close>

text \<open>
  A raster holds its width, its height and four bytes (red, green, blue, alpha) for each
  pixel, row by row, as the \<open>ImageData\<close> of a canvas does.
\<close>

type_synonym byte = "8 word"

record Raster =
  rwidth :: nat
  rheight :: nat
  rdata :: "byte list"

definition wfRaster :: "Raster \<Rightarrow> bool" where
  "wfRaster r = (length (rdata r) = 4 * rwidth r * rheight r)"

text \<open>
  \<open>warpPerspective\<close> runs in the \<open>onload\<close> handler of the decoded image. The model takes
  the decoded image as a raster and returns the \<open>ImageData\<close> that the source puts on the
  canvas before encoding it. The promise is rejected, or the handler throws, in these cases.
\<close>

datatype error = TypeError | NoContext | IndexSizeError | NoTempContext

text \<open>Whether \<open>getContext('2d')\<close> yields a context, for the canvas and the temporary canvas.\<close>

record Canvas2D =
  ctx_ok :: bool
  tempCtx_ok :: bool

definition maxWidth_of :: "Point list \<Rightarrow> number" where
  "maxWidth_of srcPoints =
     (let widthTop = dist (srcPoints ! 0) (srcPoints ! 1);
          widthBottom = dist (srcPoints ! 3) (srcPoints ! 2)
      in Math_round (Math_max widthTop widthBottom))"

definition maxHeight_of :: "Point list \<Rightarrow> number" where
  "maxHeight_of srcPoints =
     (let heightLeft = dist (srcPoints ! 0) (srcPoints ! 3);
          heightRight = dist (srcPoints ! 1) (srcPoints ! 2)
      in Math_round (Math_max heightLeft heightRight))"

definition dstPoints :: "number \<Rightarrow> number \<Rightarrow> Point list" where
  "dstPoints maxWidth maxHeight =
     [\<lparr>px = 0, py = 0\<rparr>,
      \<lparr>px = maxWidth, py = 0\<rparr>,
      \<lparr>px = maxWidth, py = maxHeight\<rparr>,
      \<lparr>px = 0, py = maxHeight\<rparr>]"

text \<open>The body of the loop that pushes two rows for each correspondence, and the loop.\<close>

definition pushRows :: "Point list \<Rightarrow> Point list \<Rightarrow> nat \<Rightarrow> matrix \<times> number list \<Rightarrow> matrix \<times> number list" where
  "pushRows srcPoints dstPts i = (\<lambda>(A, B).
     let sx = px (srcPoints ! i);
         sy = py (srcPoints ! i);
         dx = px (dstPts ! i);
         dy = py (dstPts ! i)
     in (A @ [[dx, dy, 1, 0, 0, 0, (- dx) * sx, (- dy) * sx]]
           @ [[0, 0, 0, dx, dy, 1, (- dx) * sy, (- dy) * sy]],
         B @ [sx] @ [sy]))"

definition buildSystem :: "Point list \<Rightarrow> Point list \<Rightarrow> matrix \<times> number list" where
  "buildSystem srcPoints dstPts = fold (pushRows srcPoints dstPts) [0..<4] ([], [])"

definition computeH :: "Point list \<Rightarrow> number \<Rightarrow> number \<Rightarrow> number list" where
  "computeH srcPoints maxWidth maxHeight =
     (let (A, B) = buildSystem srcPoints (dstPoints maxWidth maxHeight)
      in solveMatrix A B)"

definition homography :: "Point list \<Rightarrow> number list" where
  "homography srcPoints = computeH srcPoints (maxWidth_of srcPoints) (maxHeight_of srcPoints)"

text \<open>
  \<open>createImageData\<close> of the canvas context (HTML Standard): the arguments are converted
  to integers, a non-finite argument is a \<open>TypeError\<close>, a zero one an \<open>IndexSizeError\<close>;
  the new raster is transparent black. The limits of the platform on the size of a raster
  are not modelled.
\<close>

definition createImageData :: "number \<Rightarrow> number \<Rightarrow> error + Raster" where
  "createImageData sw sh =
     (if \<not> isFin sw \<or> \<not> isFin sh then Inl TypeError
      else let w = nat \<lfloor>\<bar>val sw\<bar>\<rfloor>; h = nat \<lfloor>\<bar>val sh\<bar>\<rfloor>
        in if w = 0 \<or> h = 0 then Inl IndexSizeError
           else Inr \<lparr>rwidth = w, rheight = h, rdata = replicate (4 * w * h) 0\<rparr>)"

text \<open>The loop that fills the raster with opaque white: \<open>i\<close> runs over the multiples of 4
  below the length.\<close>

definition fillWhite :: "byte list \<Rightarrow> byte list" where
  "fillWhite data =
     fold (\<lambda>i d. d[i := 255, i + 1 := 255, i + 2 := 255, i + 3 := 255])
       (map (\<lambda>q. 4 * q) [0..<(length data + 3) div 4]) data"

text \<open>An in-bounds integral number as an array index.\<close>

definition toIndex :: "number \<Rightarrow> nat" where
  "toIndex a = nat \<lfloor>val a\<rfloor>"

text \<open>The source coordinates of the destination pixel \<open>(x, y)\<close>, and the bounds test.\<close>

definition srcCoord :: "number list \<Rightarrow> nat \<Rightarrow> nat \<Rightarrow> number \<times> number" where
  "srcCoord H x y =
     (let denom = H ! 6 * Fin (real x) + H ! 7 * Fin (real y) + 1;
          u = (H ! 0 * Fin (real x) + H ! 1 * Fin (real y) + H ! 2) / denom;
          v = (H ! 3 * Fin (real x) + H ! 4 * Fin (real y) + H ! 5) / denom
      in (Math_round u, Math_round v))"

definition inBounds :: "nat \<Rightarrow> nat \<Rightarrow> number \<times> number \<Rightarrow> bool" where
  "inBounds srcW srcH = (\<lambda>(srcX, srcY).
     srcX \<ge> 0 \<and> srcX < Fin (real srcW) \<and> srcY \<ge> 0 \<and> srcY < Fin (real srcH))"

text \<open>The body of the inner loop, the loop over \<open>x\<close> and the loop over \<open>y\<close>.\<close>

definition mapPixel :: "number list \<Rightarrow> byte list \<Rightarrow> nat \<Rightarrow> nat \<Rightarrow> nat \<Rightarrow> nat \<Rightarrow> nat \<Rightarrow> byte list \<Rightarrow> byte list" where
  "mapPixel H srcData srcW srcH maxWidth y x data =
     (let (srcX, srcY) = srcCoord H x y
      in if inBounds srcW srcH (srcX, srcY) then
           (let dstIdx = (y * maxWidth + x) * 4;
                srcIdx = (toIndex srcY * srcW + toIndex srcX) * 4
            in data[dstIdx := srcData ! srcIdx,
                    dstIdx + 1 := srcData ! (srcIdx + 1),
                    dstIdx + 2 := srcData ! (srcIdx + 2),
                    dstIdx + 3 := srcData ! (srcIdx + 3)])
         else data)"

definition mapRow :: "number list \<Rightarrow> byte list \<Rightarrow> nat \<Rightarrow> nat \<Rightarrow> nat \<Rightarrow> nat \<Rightarrow> byte list \<Rightarrow> byte list" where
  "mapRow H srcData srcW srcH maxWidth y data =
     fold (mapPixel H srcData srcW srcH maxWidth y) [0..<maxWidth] data"

definition mapPixels :: "number list \<Rightarrow> byte list \<Rightarrow> nat \<Rightarrow> nat \<Rightarrow> nat \<Rightarrow> nat \<Rightarrow> byte list \<Rightarrow> byte list" where
  "mapPixels H srcData srcW srcH maxWidth maxHeight data =
     fold (mapRow H srcData srcW srcH maxWidth) [0..<maxHeight] data"

text \<open>
  The whole operation. A corner list with fewer than four points makes the first \<open>dist\<close>
  read a field of \<open>undefined\<close>. Once \<open>createImageData\<close> has succeeded, \<open>maxWidth\<close> and
  \<open>maxHeight\<close> are positive integers (lemma \<open>createImageData_dims\<close> below), so the loops
  over \<open>x < maxWidth\<close> and \<open>y < maxHeight\<close> run over the width and height of the new raster.
\<close>

definition warpPerspective :: "Canvas2D \<Rightarrow> Raster \<Rightarrow> Point list \<Rightarrow> error + Raster" where
  "warpPerspective cv img srcPoints =
     (if length srcPoints < 4 then Inl TypeError
      else
        let maxWidth = maxWidth_of srcPoints;
            maxHeight = maxHeight_of srcPoints
        in if \<not> ctx_ok cv then Inl NoContext
           else
             let H = computeH srcPoints maxWidth maxHeight
             in case createImageData maxWidth maxHeight of
                  Inl e \<Rightarrow> Inl e
                | Inr imgData \<Rightarrow>
                    if \<not> tempCtx_ok cv then Inl NoTempContext
                    else if rwidth img = 0 \<or> rheight img = 0 then Inl IndexSizeError
                    else
                      let srcData = rdata img;
                          srcW = rwidth img;
                          srcH = rheight img;
                          data = fillWhite (rdata imgData)
                      in Inr (imgData\<lparr>rdata :=
                            mapPixels H srcData srcW srcH (rwidth imgData) (rheight imgData) data\<rparr>))"

section \<open>Notions used in the statements and proofs\<close>

text \<open>The byte of channel \<open>k\<close> of the source pixel that the destination pixel \<open>(x, y)\<close>
  is mapped to.\<close>

definition sourceByte :: "number list \<Rightarrow> byte list \<Rightarrow> nat \<Rightarrow> nat \<Rightarrow> nat \<Rightarrow> nat \<Rightarrow> byte" where
  "sourceByte H srcData srcW x y k =
     (let (srcX, srcY) = srcCoord H x y
      in srcData ! ((toIndex srcY * srcW + toIndex srcX) * 4 + k))"

text \<open>A matrix with \<open>n\<close> rows of \<open>n\<close> entries, and a vector of \<open>n\<close> entries; finite ones.\<close>

definition squareM :: "nat \<Rightarrow> matrix \<Rightarrow> bool" where
  "squareM n A = (length A = n \<and> list_all (\<lambda>row. length row = n) A)"

definition finiteM :: "nat \<Rightarrow> matrix \<Rightarrow> bool" where
  "finiteM n A = (squareM n A \<and> list_all (list_all isFin) A)"

definition finiteV :: "nat \<Rightarrow> number list \<Rightarrow> bool" where
  "finiteV n B = (length B = n \<and> list_all isFin B)"

text \<open>The product of a matrix and a vector, on the real values of their entries.\<close>

definition mulMV :: "matrix \<Rightarrow> number list \<Rightarrow> real list" where
  "mulMV A x = map (\<lambda>row. \<Sum>c<length row. val (row ! c) * val (x ! c)) A"

text \<open>A system of \<open>n\<close> linear equations in \<open>n\<close> unknowns over the reals, with coefficients
  \<open>M r c\<close> and right-hand sides \<open>b r\<close>, and what it is for \<open>f\<close> to solve it.\<close>

definition solves :: "nat \<Rightarrow> (nat \<Rightarrow> nat \<Rightarrow> real) \<Rightarrow> (nat \<Rightarrow> real) \<Rightarrow> (nat \<Rightarrow> real) \<Rightarrow> bool" where
  "solves n M b f = (\<forall>r<n. (\<Sum>c<n. M r c * f c) = b r)"

definition mat :: "matrix \<Rightarrow> nat \<Rightarrow> nat \<Rightarrow> real" where
  "mat A = (\<lambda>r c. val (A ! r ! c))"

definition vec :: "number list \<Rightarrow> nat \<Rightarrow> real" where
  "vec B = (\<lambda>r. val (B ! r))"

text \<open>A square matrix is non-singular when the homogeneous system has only the zero
  solution.\<close>

definition nonsingular :: "matrix \<Rightarrow> bool" where
  "nonsingular A =
     (\<forall>f. solves (length A) (mat A) (\<lambda>r. 0) f \<longrightarrow> (\<forall>c<length A. f c = 0))"

text \<open>The entries below the diagonal in the first \<open>i\<close> columns are the positive zero.\<close>

definition lowerZero :: "nat \<Rightarrow> nat \<Rightarrow> matrix \<Rightarrow> bool" where
  "lowerZero n i A = (\<forall>r<n. \<forall>c<i. c < r \<longrightarrow> A ! r ! c = 0)"

text \<open>The exchange of two whole rows.\<close>

definition swapWholeRows :: "nat \<Rightarrow> nat \<Rightarrow> matrix \<Rightarrow> matrix" where
  "swapWholeRows i maxRow A = A[i := A ! maxRow, maxRow := A ! i]"

text \<open>The multiplier of the pivot row \<open>i\<close> in the elimination of row \<open>r\<close>.\<close>

definition factor :: "matrix \<Rightarrow> nat \<Rightarrow> nat \<Rightarrow> number" where
  "factor A i r = (- (A ! r ! i)) / (A ! i ! i)"

text \<open>Gaussian elimination with partial pivoting as it is usually stated: the pivot row
  found in column \<open>i\<close> among the rows \<open>i\<close> to \<open>n - 1\<close> is exchanged as a whole with row \<open>i\<close>.\<close>

definition elimStepWhole :: "nat \<Rightarrow> nat \<Rightarrow> matrix \<times> number list \<Rightarrow> matrix \<times> number list" where
  "elimStepWhole n i = (\<lambda>(A, B).
     let maxRow = snd (findPivot A i n);
         A1 = swapWholeRows i maxRow A;
         B1 = swapB i maxRow B
     in fold (elimRow i n) [i + 1..<n] (A1, B1))"

section \<open>Arithmetic on finite numbers\<close>

lemma isFin_mkFin [simp]: "isFin (mkFin s r)"
  by (simp add: mkFin_def mkZero_def)

lemma val_mkFin [simp]: "val (mkFin s r) = r"
  by (simp add: mkFin_def mkZero_def)

lemma isFin_not_special: "isFin a \<Longrightarrow> \<not> isNaN a \<and> \<not> isInf a"
  by (cases a) (simp_all add: isNaN_def isInf_def)

lemma isZero_val: "isFin a \<Longrightarrow> isZero a = (val a = 0)"
  by (cases a) (simp_all add: isZero_def)

lemma fin_add [simp]: "isFin a \<Longrightarrow> isFin b \<Longrightarrow> isFin (a + b) \<and> val (a + b) = val a + val b"
  by (simp add: plus_number_def isFin_not_special)

lemma fin_neg [simp]: "isFin a \<Longrightarrow> isFin (- a) \<and> val (- a) = - val a"
  by (cases a) (simp_all add: uminus_number_def)

lemma fin_neg' [simp]: "isFin a \<Longrightarrow> isFin (neg a) \<and> val (neg a) = - val a"
  by (cases a) simp_all

lemma fin_sub [simp]: "isFin a \<Longrightarrow> isFin b \<Longrightarrow> isFin (a - b) \<and> val (a - b) = val a - val b"
  by (simp add: minus_number_def plus_number_def isFin_not_special)

lemma fin_mul [simp]: "isFin a \<Longrightarrow> isFin b \<Longrightarrow> isFin (a * b) \<and> val (a * b) = val a * val b"
  by (simp add: times_number_def isFin_not_special)

lemma fin_div [simp]:
  "isFin a \<Longrightarrow> isFin b \<Longrightarrow> val b \<noteq> 0 \<Longrightarrow> isFin (a / b) \<and> val (a / b) = val a / val b"
  by (simp add: divide_number_def isFin_not_special isZero_val)

lemma fin_abs [simp]: "isFin a \<Longrightarrow> isFin (Math_abs a) \<and> val (Math_abs a) = \<bar>val a\<bar>"
  by (cases a) simp_all

lemma fin_round [simp]:
  "isFin a \<Longrightarrow> isFin (Math_round a) \<and> val (Math_round a) = of_int \<lfloor>val a + 1 / 2\<rfloor>"
  by (cases a) simp_all

lemma fin_zero_one [simp]: "isFin (0::number)" "val (0::number) = 0" "isFin (1::number)" "val (1::number) = 1"
  by (simp_all add: zero_number_def one_number_def)

lemma fin_less [simp]: "isFin a \<Longrightarrow> isFin b \<Longrightarrow> (a < b) = (val a < val b)"
  by (cases a; cases b) (simp_all add: less_number_def isNaN_def)

lemma fin_less_eq [simp]: "isFin a \<Longrightarrow> isFin b \<Longrightarrow> (a \<le> b) = (val a \<le> val b)"
  by (cases a; cases b) (simp_all add: less_eq_number_def isNaN_def)


section \<open>The default corners\<close>


section \<open>The dimensions of the destination raster\<close>

lemma Math_pow_2: "Math_pow a 2 = a * a"
proof -
  have "a * Fin 1 = a"
    by (cases a) (simp_all add: times_number_def isNaN_def isInf_def isZero_def mkInf_def mkFin_def mkZero_def)
  then show ?thesis
    by (simp add: numeral_2_eq_2)
qed









lemma warpPerspective_success:
  assumes "4 \<le> length ps" and "ctx_ok cv" and "tempCtx_ok cv"
    and "0 < rwidth img" and "0 < rheight img"
    and "createImageData (maxWidth_of ps) (maxHeight_of ps) = Inr r"
  shows "warpPerspective cv img ps =
     Inr (r\<lparr>rdata := mapPixels (homography ps) (rdata img) (rwidth img) (rheight img)
                  (rwidth r) (rheight r) (fillWhite (rdata r))\<rparr>)"
  using assms by (simp add: warpPerspective_def homography_def Let_def)

text \<open>The distance between two finite points, and the dimensions of a quadrilateral with
  finite corners.\<close>

lemma signbit_square: "\<not> signbit (a * a)"
  by (cases a) (simp_all add: times_number_def isNaN_def isInf_def isZero_def mkInf_def mkFin_def
      mkZero_def mult_less_0_iff)

lemma add_NegZero: "a + b = NegZero \<Longrightarrow> signbit a"
  by (cases a; cases b)
     (simp_all add: plus_number_def isNaN_def isInf_def mkFin_def mkZero_def split: if_splits)

lemma dist_Fin:
  "dist \<lparr>px = Fin a, py = Fin b\<rparr> \<lparr>px = Fin c, py = Fin d\<rparr> = Fin (sqrt ((c - a)\<^sup>2 + (d - b)\<^sup>2))"
proof -
  let ?s = "(Fin c - Fin a) * (Fin c - Fin a) + (Fin d - Fin b) * (Fin d - Fin b)"
  have "isFin (Fin c - Fin a)" "isFin (Fin d - Fin b)" by simp_all
  then have fin: "isFin ?s" and v: "val ?s = (c - a)\<^sup>2 + (d - b)\<^sup>2"
    by (simp_all add: power2_eq_square)
  have nz: "?s \<noteq> NegZero"
    using add_NegZero [of "(Fin c - Fin a) * (Fin c - Fin a)"] signbit_square by blast
  have "\<not> (c - a)\<^sup>2 + (d - b)\<^sup>2 < 0"
    by (simp add: not_less)
  with fin v nz show ?thesis
    by (cases ?s) (simp_all add: dist_def Math_pow_2)
qed

lemma Math_max_Fin: "Math_max (Fin a) (Fin b) = Fin (max a b)"
  by (simp add: Math_max_def isNaN_def less_number_def max_def)

lemma upt_4: "[0..<4] = [0, 1, 2, 3]"
  by (simp add: upt_rec)



section \<open>The linear system of the homography\<close>


section \<open>The pixel loops\<close>

text \<open>A \<open>for\<close> loop with an invariant: the invariant holds for the counter \<open>lo\<close> and for
  the initial state, and each iteration takes it from \<open>j\<close> to \<open>j + 1\<close>.\<close>

lemma fold_upt_inv:
  assumes "P lo s"
    and "\<And>j t. lo \<le> j \<Longrightarrow> j < hi \<Longrightarrow> P j t \<Longrightarrow> P (Suc j) (f j t)"
    and "lo \<le> hi"
  shows "P hi (fold f [lo..<hi] s)"
proof -
  have "m \<le> hi \<Longrightarrow> lo \<le> m \<Longrightarrow> P m (fold f [lo..<m] s)" for m
  proof (induction m)
    case 0
    with assms(1) show ?case by simp
  next
    case (Suc m)
    show ?case
    proof (cases "lo = Suc m")
      case True
      with assms(1) show ?thesis by simp
    next
      case False
      with Suc.prems have "lo \<le> m" "m < hi" by simp_all
      with Suc.IH assms(2) [of m] show ?thesis by simp
    qed
  qed
  with assms(3) show ?thesis by simp
qed

lemma quad_update_nth:
  assumes "q * 4 + 3 < length d" and "p < length d"
  shows "d[q * 4 := a0, q * 4 + 1 := a1, q * 4 + 2 := a2, q * 4 + 3 := a3] ! p =
     (if p div 4 = q then [a0, a1, a2, a3] ! (p mod 4) else d ! p)"
proof -
  consider "p = q * 4" | "p = q * 4 + 1" | "p = q * 4 + 2" | "p = q * 4 + 3" | "p div 4 \<noteq> q"
    by arith
  then show ?thesis
  proof cases
    case 1
    then have "p div 4 = q" "p mod 4 = 0" by simp_all
    with 1 assms show ?thesis by (simp add: nth_list_update)
  next
    case 2
    then have "p div 4 = q" "p mod 4 = 1" by arith+
    with 2 assms show ?thesis by (simp add: nth_list_update)
  next
    case 3
    then have "p div 4 = q" "p mod 4 = 2" by arith+
    with 3 assms show ?thesis by (simp add: nth_list_update)
  next
    case 4
    then have "p div 4 = q" "p mod 4 = 3" by arith+
    with 4 assms show ?thesis by (simp add: nth_list_update)
  next
    case 5
    then have "p \<noteq> q * 4" "p \<noteq> q * 4 + 1" "p \<noteq> q * 4 + 2" "p \<noteq> q * 4 + 3" by auto
    with 5 show ?thesis by simp
  qed
qed

lemma pixel_index_bound:
  assumes "x < w" and "y < (h::nat)"
  shows "y * w + x < w * h"
proof -
  have "y * w + x < Suc y * w" using assms(1) by simp
  also have "\<dots> \<le> h * w" using assms(2) by (intro mult_le_mono1) simp
  finally show ?thesis by (simp add: mult.commute)
qed

lemma pixel_index_div_mod:
  assumes "x < (w::nat)"
  shows "(q = y * w + x) = (q div w = y \<and> q mod w = x)"
  using assms by (auto simp add: div_mult_mod_eq)

text \<open>The fill with opaque white.\<close>

lemma fillWhite_replicate:
  assumes "length d = 4 * n"
  shows "fillWhite d = replicate (4 * n) 255"
proof -
  let ?f = "\<lambda>q (t::byte list). t[q * 4 := 255, q * 4 + 1 := 255, q * 4 + 2 := 255, q * 4 + 3 := 255]"
  let ?P = "\<lambda>j t. length t = length d \<and> (\<forall>p<length d. t ! p = (if p div 4 < j then 255 else d ! p))"
  have m: "(length d + 3) div 4 = n" using assms by simp
  have "fillWhite d = fold ((\<lambda>i (t::byte list). t[i := 255, i + 1 := 255, i + 2 := 255, i + 3 := 255]) \<circ> (\<lambda>q. 4 * q)) [0..<n] d"
    by (simp only: fillWhite_def m fold_map)
  also have "(\<lambda>i (t::byte list). t[i := 255, i + 1 := 255, i + 2 := 255, i + 3 := 255]) \<circ> (\<lambda>q. 4 * q) = ?f"
    by (intro ext) (simp only: comp_def mult.commute)
  finally have fm: "fillWhite d = fold ?f [0..<n] d" .
  have "?P n (fold ?f [0..<n] d)"
  proof (rule fold_upt_inv [where P = ?P and f = ?f])
    show "?P 0 d" by simp
    show "0 \<le> n" by simp
  next
    fix j t assume j: "j < n" and P: "?P j t"
    from P have lt: "length t = length d"
      and nt: "\<And>p. p < length d \<Longrightarrow> t ! p = (if p div 4 < j then 255 else d ! p)"
      by simp_all
    have b: "j * 4 + 3 < length t" using j lt assms by simp
    have upd: "?f j t ! p = (if p div 4 < Suc j then 255 else d ! p)" if p: "p < length d" for p
    proof -
      have "p mod 4 = 0 \<or> p mod 4 = 1 \<or> p mod 4 = 2 \<or> p mod 4 = 3" by arith
      then have "[255, 255, 255, 255 :: byte] ! (p mod 4) = 255" by auto
      moreover have "?f j t ! p = (if p div 4 = j then [255, 255, 255, 255] ! (p mod 4) else t ! p)"
        using p lt by (intro quad_update_nth [OF b]) simp
      ultimately have "?f j t ! p = (if p div 4 = j then 255 else t ! p)"
        by simp
      then show ?thesis
        using nt [OF p] by (simp add: less_Suc_eq)
    qed
    have "length (?f j t) = length d" using lt by simp
    with upd show "?P (Suc j) (?f j t)" by blast
  qed
  then have len: "length (fillWhite d) = 4 * n"
    and inv: "\<And>p. p < 4 * n \<Longrightarrow> fillWhite d ! p = (if p div 4 < n then 255 else d ! p)"
    using assms by (simp_all add: fm)
  have nth: "fillWhite d ! p = 255" if "p < 4 * n" for p
  proof -
    from that have "p div 4 < n" by arith
    with inv [OF that] show ?thesis by simp
  qed
  show ?thesis
    by (rule nth_equalityI) (simp_all add: len nth)
qed

text \<open>One pixel, one row and all rows of the mapping.\<close>

lemma length_mapPixel: "length (mapPixel H sd sW sH w y x d) = length d"
  by (simp add: mapPixel_def split_beta Let_def)

lemma mapPixel_nth:
  assumes "length d = 4 * w * h" and "x < w" and "y < h" and "p < length d"
  shows "mapPixel H sd sW sH w y x d ! p =
      (if p div 4 = y * w + x \<and> inBounds sW sH (srcCoord H x y)
       then sourceByte H sd sW x y (p mod 4) else d ! p)"
proof -
  have b: "(y * w + x) * 4 + 3 < length d"
    using pixel_index_bound [OF assms(2,3)] assms(1) by simp
  have k: "p mod 4 = 0 \<or> p mod 4 = 1 \<or> p mod 4 = 2 \<or> p mod 4 = 3" by arith
  show ?thesis
  proof (cases "inBounds sW sH (srcCoord H x y)")
    case True
    then show ?thesis
      using quad_update_nth [OF b assms(4)] k
      by (auto simp add: mapPixel_def sourceByte_def split_beta Let_def)
  next
    case False
    then show ?thesis
      by (simp add: mapPixel_def split_beta Let_def)
  qed
qed

lemma mapRow_nth:
  assumes "length d = 4 * w * h" and "y < h"
  shows "length (mapRow H sd sW sH w y d) = length d \<and>
     (\<forall>p<length d. mapRow H sd sW sH w y d ! p =
       (if p div 4 div w = y \<and> inBounds sW sH (srcCoord H (p div 4 mod w) y)
        then sourceByte H sd sW (p div 4 mod w) y (p mod 4) else d ! p))"
proof -
  let ?P = "\<lambda>j t. length t = length d \<and>
     (\<forall>p<length d. t ! p =
       (if p div 4 div w = y \<and> p div 4 mod w < j \<and> inBounds sW sH (srcCoord H (p div 4 mod w) y)
        then sourceByte H sd sW (p div 4 mod w) y (p mod 4) else d ! p))"
  have "?P w (fold (mapPixel H sd sW sH w y) [0..<w] d)"
  proof (rule fold_upt_inv [where P = ?P])
    show "?P 0 d" by simp
    show "0 \<le> w" by simp
  next
    fix j t assume j: "j < w" and P: "?P j t"
    from P assms(1) have lt: "length t = 4 * w * h" by simp
    show "?P (Suc j) (mapPixel H sd sW sH w y j t)"
    proof (intro conjI allI impI)
      show "length (mapPixel H sd sW sH w y j t) = length d"
        using P by (simp add: length_mapPixel)
    next
      fix p assume p: "p < length d"
      then have pt: "p < length t" using P by simp
      have "mapPixel H sd sW sH w y j t ! p =
        (if p div 4 = y * w + j \<and> inBounds sW sH (srcCoord H j y)
         then sourceByte H sd sW j y (p mod 4) else t ! p)"
        by (rule mapPixel_nth [OF lt j assms(2) pt])
      with P p pixel_index_div_mod [OF j, of "p div 4" y]
      show "mapPixel H sd sW sH w y j t ! p =
        (if p div 4 div w = y \<and> p div 4 mod w < Suc j \<and> inBounds sW sH (srcCoord H (p div 4 mod w) y)
         then sourceByte H sd sW (p div 4 mod w) y (p mod 4) else d ! p)"
        by (auto simp add: less_Suc_eq)
    qed
  qed
  moreover have "p div 4 mod w < w" if "p < length d" for p
  proof -
    from that assms(1) have "0 < w" by (cases w) simp_all
    then show ?thesis by simp
  qed
  ultimately show ?thesis
    by (simp add: mapRow_def)
qed

lemma mapPixels_nth:
  assumes "length d = 4 * w * h"
  shows "length (mapPixels H sd sW sH w h d) = length d \<and>
     (\<forall>p<length d. mapPixels H sd sW sH w h d ! p =
       (if inBounds sW sH (srcCoord H (p div 4 mod w) (p div 4 div w))
        then sourceByte H sd sW (p div 4 mod w) (p div 4 div w) (p mod 4) else d ! p))"
proof -
  let ?P = "\<lambda>j t. length t = length d \<and>
     (\<forall>p<length d. t ! p =
       (if p div 4 div w < j \<and> inBounds sW sH (srcCoord H (p div 4 mod w) (p div 4 div w))
        then sourceByte H sd sW (p div 4 mod w) (p div 4 div w) (p mod 4) else d ! p))"
  have "?P h (fold (mapRow H sd sW sH w) [0..<h] d)"
  proof (rule fold_upt_inv [where P = ?P])
    show "?P 0 d" by simp
    show "0 \<le> h" by simp
  next
    fix j t assume j: "j < h" and P: "?P j t"
    from P assms(1) have lt: "length t = 4 * w * h" by simp
    note row = mapRow_nth [OF lt j, of H sd sW sH]
    show "?P (Suc j) (mapRow H sd sW sH w j t)"
    proof (intro conjI allI impI)
      show "length (mapRow H sd sW sH w j t) = length d"
        using row P by simp
    next
      fix p assume p: "p < length d"
      then have pt: "p < length t" using P by simp
      with row have "mapRow H sd sW sH w j t ! p =
        (if p div 4 div w = j \<and> inBounds sW sH (srcCoord H (p div 4 mod w) j)
         then sourceByte H sd sW (p div 4 mod w) j (p mod 4) else t ! p)"
        by simp
      with P p
      show "mapRow H sd sW sH w j t ! p =
        (if p div 4 div w < Suc j \<and> inBounds sW sH (srcCoord H (p div 4 mod w) (p div 4 div w))
         then sourceByte H sd sW (p div 4 mod w) (p div 4 div w) (p mod 4) else d ! p)"
        by (auto simp add: less_Suc_eq)
    qed
  qed
  moreover have "p div 4 div w < h" if "p < length d" for p
  proof -
    from that assms(1) have "p div 4 < w * h" by simp
    then show ?thesis by (simp add: less_mult_imp_div_less mult.commute)
  qed
  ultimately show ?thesis
    by (simp add: mapPixels_def)
qed









section \<open>The loops of the solver\<close>

lemma squareM_nth: "squareM n A = (length A = n \<and> (\<forall>r<n. length (A ! r) = n))"
  by (auto simp add: squareM_def list_all_length)

lemma finiteM_nth:
  "finiteM n A = (squareM n A \<and> (\<forall>r<n. \<forall>c<n. isFin (A ! r ! c)))"
  by (auto simp add: finiteM_def squareM_nth list_all_length)

lemma finiteV_nth: "finiteV n B = (length B = n \<and> (\<forall>r<n. isFin (B ! r)))"
  by (auto simp add: finiteV_def list_all_length)

lemma nth_update2:
  assumes "r' < length A" and "c' < length (A ! r')"
  shows "A[r' := (A ! r')[c' := v]] ! r ! c = (if r = r' \<and> c = c' then v else A ! r ! c)"
  using assms by (auto simp add: nth_list_update)

lemma squareM_update2:
  assumes "squareM n A"
  shows "squareM n (A[r' := (A ! r')[c' := v]])"
proof -
  have "length (A[r' := (A ! r')[c' := v]] ! r) = length (A ! r)" for r
    by (cases "r' < length A") (auto simp add: nth_list_update list_update_beyond not_less)
  with assms show ?thesis by (simp add: squareM_nth)
qed

text \<open>The pivot search returns a row between \<open>i\<close> and \<open>n - 1\<close>; on a finite column it is a row
  with the largest absolute value in the column among these rows.\<close>

lemma findPivot_range:
  assumes "i < n"
  shows "i \<le> snd (findPivot A i n) \<and> snd (findPivot A i n) < n"
proof -
  let ?P = "\<lambda>j (s :: number \<times> nat). i \<le> snd s \<and> snd s < j"
  have "?P n (fold (pivotStep A i) [i + 1..<n] (Math_abs (A ! i ! i), i))"
  proof (rule fold_upt_inv [where P = ?P])
    show "?P (i + 1) (Math_abs (A ! i ! i), i)" by simp
    show "i + 1 \<le> n" using assms by simp
  next
    fix j t assume "i + 1 \<le> j" "j < n" "?P j t"
    then show "?P (Suc j) (pivotStep A i j t)"
      by (cases t) (auto simp add: pivotStep_def)
  qed
  then show ?thesis by (simp add: findPivot_def)
qed

lemma findPivot_max:
  assumes "i < n" and "\<forall>k<n. isFin (A ! k ! i)"
  shows "\<forall>k. i \<le> k \<and> k < n \<longrightarrow> \<bar>val (A ! k ! i)\<bar> \<le> \<bar>val (A ! snd (findPivot A i n) ! i)\<bar>"
proof -
  let ?P = "\<lambda>j (s :: number \<times> nat). i \<le> snd s \<and> snd s < j \<and> fst s = Math_abs (A ! snd s ! i) \<and>
     (\<forall>k. i \<le> k \<and> k < j \<longrightarrow> \<bar>val (A ! k ! i)\<bar> \<le> \<bar>val (A ! snd s ! i)\<bar>)"
  have "?P n (fold (pivotStep A i) [i + 1..<n] (Math_abs (A ! i ! i), i))"
  proof (rule fold_upt_inv [where P = ?P])
    show "?P (i + 1) (Math_abs (A ! i ! i), i)" by (auto simp add: le_less_Suc_eq)
    show "i + 1 \<le> n" using assms by simp
  next
    fix j t assume j: "i + 1 \<le> j" "j < n" and P: "?P j t"
    obtain me mr where t: "t = (me, mr)" by (cases t)
    from P t have mr: "i \<le> mr" "mr < j" and me: "me = Math_abs (A ! mr ! i)"
      and mx: "\<And>k. i \<le> k \<Longrightarrow> k < j \<Longrightarrow> \<bar>val (A ! k ! i)\<bar> \<le> \<bar>val (A ! mr ! i)\<bar>"
      by simp_all
    from assms(2) j mr have fj: "isFin (A ! j ! i)" and fm: "isFin (A ! mr ! i)" by simp_all
    then have cmp: "(Math_abs (A ! j ! i) > me) = (\<bar>val (A ! mr ! i)\<bar> < \<bar>val (A ! j ! i)\<bar>)"
      by (simp add: me)
    show "?P (Suc j) (pivotStep A i j t)"
    proof (cases "Math_abs (A ! j ! i) > me")
      case True
      with cmp have lt: "\<bar>val (A ! mr ! i)\<bar> < \<bar>val (A ! j ! i)\<bar>" by simp
      have "\<bar>val (A ! k ! i)\<bar> \<le> \<bar>val (A ! j ! i)\<bar>" if "i \<le> k" "k < Suc j" for k
      proof (cases "k = j")
        case False
        with that have "k < j" by simp
        from mx [OF that(1) this] lt show ?thesis by simp
      qed simp
      with True j show ?thesis by (simp add: t pivotStep_def)
    next
      case False
      with cmp have le: "\<bar>val (A ! j ! i)\<bar> \<le> \<bar>val (A ! mr ! i)\<bar>" by simp
      have "\<bar>val (A ! k ! i)\<bar> \<le> \<bar>val (A ! mr ! i)\<bar>" if "i \<le> k" "k < Suc j" for k
      proof (cases "k = j")
        case False
        with that have "k < j" by simp
        from mx [OF that(1) this] show ?thesis .
      qed (simp add: le)
      with False mr me show ?thesis by (simp add: t pivotStep_def)
    qed
  qed
  then show ?thesis by (simp add: findPivot_def)
qed

text \<open>The exchange loop: the entries of the columns from \<open>i\<close> on are exchanged between the rows
  \<open>i\<close> and \<open>maxRow\<close>.\<close>

lemma swapEntry_nth:
  assumes "squareM n A" and "i < n" and "m < n" and "k < n"
  shows "swapEntry i m k A ! r ! c =
     (if c = k \<and> r = i then A ! m ! k else if c = k \<and> r = m then A ! i ! k else A ! r ! c)"
proof -
  let ?A1 = "A[m := (A ! m)[k := A ! i ! k]]"
  from assms have l: "m < length A" "k < length (A ! m)" "i < length A" "k < length (A ! i)"
    by (simp_all add: squareM_nth)
  have sq1: "squareM n ?A1" by (rule squareM_update2 [OF assms(1)])
  with assms have l1: "i < length ?A1" "k < length (?A1 ! i)" by (simp_all add: squareM_nth)
  have "swapEntry i m k A ! r ! c = (if r = i \<and> c = k then A ! m ! k else ?A1 ! r ! c)"
    unfolding swapEntry_def Let_def by (rule nth_update2 [OF l1])
  also have "?A1 ! r ! c = (if r = m \<and> c = k then A ! i ! k else A ! r ! c)"
    by (rule nth_update2 [OF l(1,2)])
  finally show ?thesis by auto
qed

lemma swapEntry_square: "squareM n A \<Longrightarrow> squareM n (swapEntry i m k A)"
  unfolding swapEntry_def Let_def by (intro squareM_update2)

lemma swapRows_nth:
  assumes "squareM n A" and "i \<le> m" and "m < n"
  shows "squareM n (swapRows i m n A) \<and>
     (\<forall>r c. swapRows i m n A ! r ! c =
        (if i \<le> c \<and> c < n \<and> r = i then A ! m ! c
         else if i \<le> c \<and> c < n \<and> r = m then A ! i ! c else A ! r ! c))"
proof -
  let ?P = "\<lambda>j t. squareM n t \<and>
     (\<forall>r c. t ! r ! c =
        (if i \<le> c \<and> c < j \<and> r = i then A ! m ! c
         else if i \<le> c \<and> c < j \<and> r = m then A ! i ! c else A ! r ! c))"
  from assms have i: "i < n" by simp
  have "?P n (fold (swapEntry i m) [i..<n] A)"
  proof (rule fold_upt_inv [where P = ?P])
    show "?P i A" using assms(1) by auto
    show "i \<le> n" using i by simp
  next
    fix j t assume j: "i \<le> j" "j < n" and P: "?P j t"
    from P have sq: "squareM n t"
      and nt: "\<And>r c. t ! r ! c =
        (if i \<le> c \<and> c < j \<and> r = i then A ! m ! c
         else if i \<le> c \<and> c < j \<and> r = m then A ! i ! c else A ! r ! c)"
      by simp_all
    have "swapEntry i m j t ! r ! c =
        (if i \<le> c \<and> c < Suc j \<and> r = i then A ! m ! c
         else if i \<le> c \<and> c < Suc j \<and> r = m then A ! i ! c else A ! r ! c)" for r c
      unfolding swapEntry_nth [OF sq i assms(3) j(2)] nt using j by (auto simp add: less_Suc_eq)
    with swapEntry_square [OF sq] show "?P (Suc j) (swapEntry i m j t)" by blast
  qed
  then show ?thesis by (simp add: swapRows_def)
qed

text \<open>The elimination of one row: the entries of row \<open>k\<close> from column \<open>i\<close> on.\<close>

lemma elimEntries_nth:
  assumes "squareM n A" and "i < n" and "k < n" and "k \<noteq> i"
  shows "squareM n (fold (elimEntry i k c) [i..<n] A) \<and>
     (\<forall>r cc. fold (elimEntry i k c) [i..<n] A ! r ! cc =
        (if r = k \<and> i \<le> cc \<and> cc < n
         then (if cc = i then 0 else A ! k ! cc + c * A ! i ! cc) else A ! r ! cc))"
proof -
  let ?P = "\<lambda>j t. squareM n t \<and>
     (\<forall>r cc. t ! r ! cc =
        (if r = k \<and> i \<le> cc \<and> cc < j
         then (if cc = i then 0 else A ! k ! cc + c * A ! i ! cc) else A ! r ! cc))"
  have "?P n (fold (elimEntry i k c) [i..<n] A)"
  proof (rule fold_upt_inv [where P = ?P])
    show "?P i A" using assms(1) by auto
    show "i \<le> n" using assms(2) by simp
  next
    fix j t assume j: "i \<le> j" "j < n" and P: "?P j t"
    from P have sq: "squareM n t"
      and nt: "\<And>r cc. t ! r ! cc =
        (if r = k \<and> i \<le> cc \<and> cc < j
         then (if cc = i then 0 else A ! k ! cc + c * A ! i ! cc) else A ! r ! cc)"
      by simp_all
    from sq assms(3) j have l: "k < length t" "j < length (t ! k)" by (simp_all add: squareM_nth)
    have kj: "t ! k ! j = A ! k ! j" and ij: "t ! i ! j = A ! i ! j"
      using assms(4) by (simp_all add: nt)
    have "elimEntry i k c j t ! r ! cc =
        (if r = k \<and> i \<le> cc \<and> cc < Suc j
         then (if cc = i then 0 else A ! k ! cc + c * A ! i ! cc) else A ! r ! cc)" for r cc
      unfolding elimEntry_def using j
      by (auto simp add: nth_update2 [OF l] nt kj ij less_Suc_eq)
    moreover have "squareM n (elimEntry i k c j t)"
      unfolding elimEntry_def using squareM_update2 [OF sq] by simp
    ultimately show "?P (Suc j) (elimEntry i k c j t)" by blast
  qed
  then show ?thesis by simp
qed

text \<open>The elimination of all rows below the pivot row.\<close>

lemma elimRows_nth:
  assumes "squareM n A" and "length B = n" and "i < n"
  shows "squareM n (fst (fold (elimRow i n) [i + 1..<n] (A, B)))
     \<and> length (snd (fold (elimRow i n) [i + 1..<n] (A, B))) = n
     \<and> (\<forall>r c. fst (fold (elimRow i n) [i + 1..<n] (A, B)) ! r ! c =
          (if i < r \<and> r < n \<and> i \<le> c \<and> c < n
           then (if c = i then 0 else A ! r ! c + factor A i r * A ! i ! c) else A ! r ! c))
     \<and> (\<forall>r. snd (fold (elimRow i n) [i + 1..<n] (A, B)) ! r =
          (if i < r \<and> r < n then B ! r + factor A i r * B ! i else B ! r))"
proof -
  let ?P = "\<lambda>j (s :: matrix \<times> number list). squareM n (fst s) \<and> length (snd s) = n
     \<and> (\<forall>r c. fst s ! r ! c =
          (if i < r \<and> r < j \<and> i \<le> c \<and> c < n
           then (if c = i then 0 else A ! r ! c + factor A i r * A ! i ! c) else A ! r ! c))
     \<and> (\<forall>r. snd s ! r =
          (if i < r \<and> r < j then B ! r + factor A i r * B ! i else B ! r))"
  have "?P n (fold (elimRow i n) [i + 1..<n] (A, B))"
  proof (rule fold_upt_inv [where P = ?P])
    show "?P (i + 1) (A, B)" using assms(1,2) by auto
    show "i + 1 \<le> n" using assms(3) by simp
  next
    fix j s assume j: "i + 1 \<le> j" "j < n" and P: "?P j s"
    obtain t u where s: "s = (t, u)" by (cases s)
    from P s have sq: "squareM n t" and lu: "length u = n"
      and nt: "\<And>r c. t ! r ! c =
          (if i < r \<and> r < j \<and> i \<le> c \<and> c < n
           then (if c = i then 0 else A ! r ! c + factor A i r * A ! i ! c) else A ! r ! c)"
      and nu: "\<And>r. u ! r = (if i < r \<and> r < j then B ! r + factor A i r * B ! i else B ! r)"
      by simp_all
    from j have ji: "j \<noteq> i" by simp
    have fc: "(- (t ! j ! i)) / (t ! i ! i) = factor A i j"
      by (simp add: nt factor_def)
    have er: "elimRow i n j s =
        (fold (elimEntry i j (factor A i j)) [i..<n] t, u[j := u ! j + factor A i j * u ! i])"
      by (simp add: s elimRow_def Let_def fc)
    from elimEntries_nth [OF sq assms(3) j(2) ji, of "factor A i j"]
    have sq': "squareM n (fold (elimEntry i j (factor A i j)) [i..<n] t)"
      and e: "\<And>r cc. fold (elimEntry i j (factor A i j)) [i..<n] t ! r ! cc =
        (if r = j \<and> i \<le> cc \<and> cc < n
         then (if cc = i then 0 else t ! j ! cc + factor A i j * t ! i ! cc) else t ! r ! cc)"
      by simp_all
    have row: "t ! j ! c = A ! j ! c" "t ! i ! c = A ! i ! c" for c
      by (simp_all add: nt)
    have "fst (elimRow i n j s) ! r ! c =
          (if i < r \<and> r < Suc j \<and> i \<le> c \<and> c < n
           then (if c = i then 0 else A ! r ! c + factor A i r * A ! i ! c) else A ! r ! c)" for r c
      unfolding er fst_conv e row using j by (auto simp add: nt less_Suc_eq)
    moreover have "snd (elimRow i n j s) ! r =
          (if i < r \<and> r < Suc j then B ! r + factor A i r * B ! i else B ! r)" for r
      unfolding er snd_conv using j lu by (auto simp add: nu nth_list_update less_Suc_eq)
    moreover have "squareM n (fst (elimRow i n j s))" "length (snd (elimRow i n j s)) = n"
      using sq' lu by (simp_all add: er)
    ultimately show "?P (Suc j) (elimRow i n j s)" by blast
  qed
  then show ?thesis by blast
qed

lemma swapB_nth:
  assumes "i < length B" and "m < length B"
  shows "swapB i m B ! r = (if r = i then B ! m else if r = m then B ! i else B ! r)"
    and "length (swapB i m B) = length B"
  using assms by (auto simp add: swapB_def Let_def nth_list_update)

text \<open>One step of the outer loop, in terms of the matrix and right-hand side after the
  exchange.\<close>

lemma elimStep_nth:
  assumes "squareM n A" and "length B = n" and "i < n"
    and "A1 = swapRows i (snd (findPivot A i n)) n A"
    and "B1 = swapB i (snd (findPivot A i n)) B"
  shows "squareM n (fst (elimStep n i (A, B)))"
    and "length (snd (elimStep n i (A, B))) = n"
    and "fst (elimStep n i (A, B)) ! r ! c =
          (if i < r \<and> r < n \<and> i \<le> c \<and> c < n
           then (if c = i then 0 else A1 ! r ! c + factor A1 i r * A1 ! i ! c) else A1 ! r ! c)"
    and "snd (elimStep n i (A, B)) ! r =
          (if i < r \<and> r < n then B1 ! r + factor A1 i r * B1 ! i else B1 ! r)"
proof -
  from findPivot_range [OF assms(3), of A] have m: "i \<le> snd (findPivot A i n)" "snd (findPivot A i n) < n"
    by simp_all
  from swapRows_nth [OF assms(1) m] assms(4) have sq1: "squareM n A1" by simp
  from swapB_nth(2) [of i B "snd (findPivot A i n)"] assms(2,3,5) m have l1: "length B1 = n" by simp
  have e: "elimStep n i (A, B) = fold (elimRow i n) [i + 1..<n] (A1, B1)"
    by (simp add: elimStep_def Let_def assms(4,5))
  from elimRows_nth [OF sq1 l1 assms(3)]
  show "squareM n (fst (elimStep n i (A, B)))"
    and "length (snd (elimStep n i (A, B))) = n"
    and "fst (elimStep n i (A, B)) ! r ! c =
          (if i < r \<and> r < n \<and> i \<le> c \<and> c < n
           then (if c = i then 0 else A1 ! r ! c + factor A1 i r * A1 ! i ! c) else A1 ! r ! c)"
    and "snd (elimStep n i (A, B)) ! r =
          (if i < r \<and> r < n then B1 ! r + factor A1 i r * B1 ! i else B1 ! r)"
    unfolding e by blast+
qed

section \<open>The invariant of the elimination\<close>

lemma lowerZero_nth: "lowerZero n i A \<Longrightarrow> r < n \<Longrightarrow> c < i \<Longrightarrow> c < r \<Longrightarrow> A ! r ! c = 0"
  by (simp add: lowerZero_def)

lemma swapRows_whole:
  assumes "squareM n A" and "i \<le> m" and "m < n" and "\<And>c. c < i \<Longrightarrow> A ! i ! c = A ! m ! c"
  shows "swapRows i m n A = swapWholeRows i m A"
proof -
  from swapRows_nth [OF assms(1-3)] have sq: "squareM n (swapRows i m n A)"
    and nt: "\<And>r c. swapRows i m n A ! r ! c =
        (if i \<le> c \<and> c < n \<and> r = i then A ! m ! c
         else if i \<le> c \<and> c < n \<and> r = m then A ! i ! c else A ! r ! c)"
    by simp_all
  from assms have i: "i < n" by simp
  have w: "swapWholeRows i m A ! r = (if r = m then A ! i else if r = i then A ! m else A ! r)"
    if "r < n" for r
    using assms(1,3) i that by (simp add: swapWholeRows_def squareM_nth nth_list_update)
  show ?thesis
  proof (rule nth_equalityI)
    show "length (swapRows i m n A) = length (swapWholeRows i m A)"
      using sq assms(1) by (simp add: squareM_nth swapWholeRows_def)
  next
    fix r assume "r < length (swapRows i m n A)"
    with sq have r: "r < n" by (simp add: squareM_nth)
    show "swapRows i m n A ! r = swapWholeRows i m A ! r"
    proof (rule nth_equalityI)
      show "length (swapRows i m n A ! r) = length (swapWholeRows i m A ! r)"
        using sq assms(1,3) i r by (simp add: squareM_nth w)
    next
      fix c assume "c < length (swapRows i m n A ! r)"
      with sq r have c: "c < n" by (simp add: squareM_nth)
      show "swapRows i m n A ! r ! c = swapWholeRows i m A ! r ! c"
      proof (cases "i \<le> c")
        case True
        with c show ?thesis by (simp add: nt w [OF r])
      next
        case False
        with assms(4) [of c] have eq: "A ! m ! c = A ! i ! c" by simp
        from False have "swapRows i m n A ! r ! c = A ! r ! c" by (simp add: nt)
        moreover have "swapWholeRows i m A ! r ! c = A ! r ! c"
        proof -
          have ww: "swapWholeRows i m A ! r ! c =
              (if r = m then A ! i ! c else if r = i then A ! m ! c else A ! r ! c)"
            by (simp add: w [OF r])
          consider (a) "r = m" | (b) "r \<noteq> m" "r = i" | (c) "r \<noteq> m" "r \<noteq> i"
            by blast
          then have "(if r = m then A ! i ! c else if r = i then A ! m ! c else A ! r ! c) = A ! r ! c"
          proof cases
            case a
            then have "(if r = m then A ! i ! c else if r = i then A ! m ! c else A ! r ! c) = A ! i ! c"
              by simp
            also have "A ! i ! c = A ! m ! c" by (rule eq [symmetric])
            also from a have "A ! m ! c = A ! r ! c" by simp
            finally show ?thesis .
          next
            case b
            then have "(if r = m then A ! i ! c else if r = i then A ! m ! c else A ! r ! c) = A ! m ! c"
              by simp
            also have "A ! m ! c = A ! i ! c" by (rule eq)
            also from b have "A ! i ! c = A ! r ! c" by simp
            finally show ?thesis .
          next
            case c
            then show ?thesis by simp
          qed
          with ww show ?thesis by (rule trans)
        qed
        ultimately show ?thesis by (rule trans [OF _ sym])
      qed
    qed
  qed
qed

lemma elimStep_lowerZero:
  assumes "squareM n A" and "length B = n" and "i < n" and "lowerZero n i A"
  shows "lowerZero n (Suc i) (fst (elimStep n i (A, B)))"
proof -
  let ?m = "snd (findPivot A i n)"
  from findPivot_range [OF assms(3), of A] have m: "i \<le> ?m" "?m < n" by simp_all
  from swapRows_nth [OF assms(1) m]
  have nt: "\<And>r c. swapRows i ?m n A ! r ! c =
        (if i \<le> c \<and> c < n \<and> r = i then A ! ?m ! c
         else if i \<le> c \<and> c < n \<and> r = ?m then A ! i ! c else A ! r ! c)"
    by simp
  have "fst (elimStep n i (A, B)) ! r ! c = 0" if "r < n" "c < Suc i" "c < r" for r c
  proof (cases "c = i")
    case True
    with that show ?thesis
      by (simp add: elimStep_nth(3) [OF assms(1-3) refl refl])
  next
    case False
    with that have c: "c < i" by simp
    then have "fst (elimStep n i (A, B)) ! r ! c = A ! r ! c"
      by (simp add: elimStep_nth(3) [OF assms(1-3) refl refl] nt)
    with lowerZero_nth [OF assms(4) that(1) c that(3)] show ?thesis by simp
  qed
  then show ?thesis by (simp add: lowerZero_def)
qed

lemma elimStep_whole:
  assumes "squareM n A" and "length B = n" and "i < n" and "lowerZero n i A"
  shows "swapRows i (snd (findPivot A i n)) n A = swapWholeRows i (snd (findPivot A i n)) A"
    and "elimStep n i (A, B) = elimStepWhole n i (A, B)"
proof -
  let ?m = "snd (findPivot A i n)"
  from findPivot_range [OF assms(3), of A] have m: "i \<le> ?m" "?m < n" by simp_all
  have "A ! i ! c = A ! ?m ! c" if "c < i" for c
    using lowerZero_nth [OF assms(4) assms(3) that that] lowerZero_nth [OF assms(4) m(2) that] that m(1)
    by simp
  then show "swapRows i ?m n A = swapWholeRows i ?m A"
    by (rule swapRows_whole [OF assms(1) m])
  then show "elimStep n i (A, B) = elimStepWhole n i (A, B)"
    by (simp add: elimStep_def elimStepWhole_def)
qed




section \<open>Linear systems over the reals\<close>

text \<open>Adding multiples of row \<open>i\<close> to the rows below it, and exchanging two rows, do not
  change the solutions of a system.\<close>

lemma solves_row_add:
  assumes "i < n"
    and "\<And>r c. r < n \<Longrightarrow> c < n \<Longrightarrow> M' r c = (if i < r then M r c + k r * M i c else M r c)"
    and "\<And>r. r < n \<Longrightarrow> b' r = (if i < r then b r + k r * b i else b r)"
  shows "solves n M' b' f = solves n M b f"
proof -
  have row: "(\<Sum>c<n. M' r c * f c) =
      (if i < r then (\<Sum>c<n. M r c * f c) + k r * (\<Sum>c<n. M i c * f c) else (\<Sum>c<n. M r c * f c))"
    if r: "r < n" for r
  proof (cases "i < r")
    case True
    have "(\<Sum>c<n. M' r c * f c) = (\<Sum>c<n. M r c * f c + k r * (M i c * f c))"
      by (rule sum.cong) (simp_all add: assms(2) [OF r] True algebra_simps)
    with True show ?thesis by (simp add: sum.distrib sum_distrib_left)
  next
    case False
    have "(\<Sum>c<n. M' r c * f c) = (\<Sum>c<n. M r c * f c)"
      by (rule sum.cong) (simp_all add: assms(2) [OF r] False)
    with False show ?thesis by simp
  qed
  show ?thesis
  proof
    assume s: "solves n M' b' f"
    then have ri: "(\<Sum>c<n. M i c * f c) = b i"
      using row [OF assms(1)] assms(3) [OF assms(1)] assms(1) by (simp add: solves_def)
    show "solves n M b f"
      unfolding solves_def
    proof (intro allI impI)
      fix r assume r: "r < n"
      from s r have "(\<Sum>c<n. M' r c * f c) = b' r" by (simp add: solves_def)
      with row [OF r] assms(3) [OF r] ri show "(\<Sum>c<n. M r c * f c) = b r"
        by (simp split: if_splits)
    qed
  next
    assume s: "solves n M b f"
    show "solves n M' b' f"
      unfolding solves_def
    proof (intro allI impI)
      fix r assume r: "r < n"
      from s r assms(1) have "(\<Sum>c<n. M r c * f c) = b r" "(\<Sum>c<n. M i c * f c) = b i"
        by (simp_all add: solves_def)
      with row [OF r] assms(3) [OF r] show "(\<Sum>c<n. M' r c * f c) = b' r"
        by simp
    qed
  qed
qed

lemma solves_swap:
  assumes "i < n" and "m < n"
    and "\<And>r c. r < n \<Longrightarrow> c < n \<Longrightarrow> M' r c = (if r = i then M m c else if r = m then M i c else M r c)"
    and "\<And>r. r < n \<Longrightarrow> b' r = (if r = i then b m else if r = m then b i else b r)"
  shows "solves n M' b' f = solves n M b f"
proof -
  have row: "(\<Sum>c<n. M' r c * f c) =
      (if r = i then (\<Sum>c<n. M m c * f c) else if r = m then (\<Sum>c<n. M i c * f c)
       else (\<Sum>c<n. M r c * f c))"
    if r: "r < n" for r
  proof -
    have "(\<Sum>c<n. M' r c * f c) =
        (\<Sum>c<n. (if r = i then M m c else if r = m then M i c else M r c) * f c)"
      by (rule sum.cong) (simp_all add: assms(3) [OF r])
    then show ?thesis by simp
  qed
  show ?thesis
  proof
    assume s: "solves n M' b' f"
    show "solves n M b f"
      unfolding solves_def
    proof (intro allI impI)
      fix r assume r: "r < n"
      from s have eq: "\<And>q. q < n \<Longrightarrow> (\<Sum>c<n. M' q c * f c) = b' q" by (simp add: solves_def)
      consider (a) "r = i" | (b) "r \<noteq> i" "r = m" | (c) "r \<noteq> i" "r \<noteq> m" by blast
      then show "(\<Sum>c<n. M r c * f c) = b r"
      proof cases
        case a
        from eq [OF assms(2)] row [OF assms(2)] assms(4) [OF assms(2)] a show ?thesis
          by (simp split: if_splits)
      next
        case b
        from eq [OF assms(1)] row [OF assms(1)] assms(4) [OF assms(1)] b show ?thesis
          by simp
      next
        case c
        from eq [OF r] row [OF r] assms(4) [OF r] c show ?thesis by simp
      qed
    qed
  next
    assume s: "solves n M b f"
    show "solves n M' b' f"
      unfolding solves_def
    proof (intro allI impI)
      fix r assume r: "r < n"
      from s have eq: "\<And>q. q < n \<Longrightarrow> (\<Sum>c<n. M q c * f c) = b q" by (simp add: solves_def)
      from eq [OF r] eq [OF assms(1)] eq [OF assms(2)] row [OF r] assms(4) [OF r]
      show "(\<Sum>c<n. M' r c * f c) = b' r"
        by simp
    qed
  qed
qed

text \<open>An upper triangular system with a non-zero diagonal has a solution.\<close>

lemma triangular_solution:
  "(\<forall>r<m::nat. M r r \<noteq> (0::real)) \<Longrightarrow> (\<forall>r<m. \<forall>c<r. M r c = 0) \<Longrightarrow>
     \<exists>y. \<forall>r<m. (\<Sum>c<m. M r c * y c) = b r"
proof (induction m arbitrary: b)
  case 0
  show ?case by simp
next
  case (Suc m)
  define ym where "ym = b m / M m m"
  from Suc.prems have d: "M m m \<noteq> 0" and z: "\<And>c. c < m \<Longrightarrow> M m c = 0" by simp_all
  have "\<exists>y. \<forall>r<m. (\<Sum>c<m. M r c * y c) = b r - M r m * ym"
    by (rule Suc.IH) (simp_all add: Suc.prems)
  then obtain y where y: "\<And>r. r < m \<Longrightarrow> (\<Sum>c<m. M r c * y c) = b r - M r m * ym"
    by blast
  have s: "(\<Sum>c<m. M r c * (y(m := ym)) c) = (\<Sum>c<m. M r c * y c)" for r
    by (rule sum.cong) simp_all
  have "(\<Sum>c<Suc m. M r c * (y(m := ym)) c) = b r" if "r < Suc m" for r
  proof (cases "r = m")
    case True
    have "(\<Sum>c<m. M m c * y c) = 0"
      by (rule sum.neutral) (simp add: z)
    with True d show ?thesis by (simp add: s ym_def)
  next
    case False
    with that have "r < m" by simp
    from y [OF this] show ?thesis by (simp add: s)
  qed
  then show ?case by blast
qed

section \<open>One elimination step on a finite system\<close>

lemma finiteM_D:
  assumes "finiteM n A"
  shows "squareM n A" and "\<And>r c. r < n \<Longrightarrow> c < n \<Longrightarrow> isFin (A ! r ! c)"
  using assms by (simp_all add: finiteM_nth)

lemma finiteV_D:
  assumes "finiteV n B"
  shows "length B = n" and "\<And>r. r < n \<Longrightarrow> isFin (B ! r)"
  using assms by (simp_all add: finiteV_nth)

lemma val_zero_entry: "a = (0::number) \<Longrightarrow> val a = 0"
  by simp

text \<open>If the pivot found in column \<open>i\<close> is zero, the system has a non-zero solution of the
  homogeneous equations.\<close>

lemma zero_pivot_kernel:
  assumes fA: "finiteM n A" and i: "i < n" and lz: "lowerZero n i A"
    and diag: "\<And>c. c < i \<Longrightarrow> mat A c c \<noteq> 0"
    and piv: "mat A (snd (findPivot A i n)) i = 0"
  shows "\<exists>f. solves n (mat A) (\<lambda>r. 0) f \<and> f i = 1"
proof -
  let ?M = "mat A"
  from finiteM_D(2) [OF fA] i have "\<forall>k<n. isFin (A ! k ! i)" by simp
  from findPivot_max [OF i this] piv have col: "?M k i = 0" if "i \<le> k" "k < n" for k
    using that by (simp add: mat_def)
  have low: "?M r c = 0" if "r < n" "c < i" "c < r" for r c
    using lowerZero_nth [OF lz that] by (simp add: mat_def)
  have "\<exists>y. \<forall>r<i. (\<Sum>c<i. ?M r c * y c) = - ?M r i"
    by (rule triangular_solution) (simp_all add: diag low i less_trans [OF _ i])
  then obtain y where y: "\<And>r. r < i \<Longrightarrow> (\<Sum>c<i. ?M r c * y c) = - ?M r i"
    by blast
  define f where "f c = (if c < i then y c else if c = i then 1 else 0)" for c
  have split: "(\<Sum>c<n. ?M r c * f c) = (\<Sum>c<i. ?M r c * y c) + ?M r i" for r
  proof -
    have "(\<Sum>c<n. ?M r c * f c) =
        (\<Sum>c<n. (if c < i then ?M r c * y c else 0) + (if c = i then ?M r i else 0))"
      by (rule sum.cong) (simp_all add: f_def)
    also have "\<dots> = (\<Sum>c<n. if c < i then ?M r c * y c else 0) + (\<Sum>c<n. if c = i then ?M r i else 0)"
      by (rule sum.distrib)
    also have "(\<Sum>c<n. if c = i then ?M r i else 0) = ?M r i"
      using i by (simp add: sum.delta)
    also have "(\<Sum>c<n. if c < i then ?M r c * y c else 0) = (\<Sum>c<i. ?M r c * y c)"
    proof -
      have "{..<n} \<inter> {c. c < i} = {..<i}" using i by auto
      then show ?thesis by (simp add: sum.If_cases)
    qed
    finally show ?thesis .
  qed
  have "(\<Sum>c<n. ?M r c * f c) = 0" if r: "r < n" for r
  proof (cases "r < i")
    case True
    from y [OF True] show ?thesis by (simp add: split)
  next
    case False
    then have ir: "i \<le> r" by simp
    have "(\<Sum>c<i. ?M r c * y c) = 0"
      by (rule sum.neutral) (use low [OF r] ir in auto)
    with col [OF ir r] show ?thesis by (simp add: split)
  qed
  then have "solves n ?M (\<lambda>r. 0) f" by (simp add: solves_def)
  moreover have "f i = 1" by (simp add: f_def)
  ultimately show ?thesis by blast
qed

text \<open>The effect of one step on a finite system whose pivot is not zero.\<close>

lemma elimStep_finite:
  assumes fA: "finiteM n A" and fB: "finiteV n B" and i: "i < n" and lz: "lowerZero n i A"
    and piv: "mat A (snd (findPivot A i n)) i \<noteq> 0"
  shows "finiteM n (fst (elimStep n i (A, B)))"
    and "finiteV n (snd (elimStep n i (A, B)))"
    and "solves n (mat (fst (elimStep n i (A, B)))) (vec (snd (elimStep n i (A, B)))) f =
         solves n (mat A) (vec B) f"
    and "solves n (mat (fst (elimStep n i (A, B)))) (\<lambda>r. 0) f = solves n (mat A) (\<lambda>r. 0) f"
    and "\<And>c. c < i \<Longrightarrow> mat (fst (elimStep n i (A, B))) c c = mat A c c"
    and "mat (fst (elimStep n i (A, B))) i i = mat A (snd (findPivot A i n)) i"
proof -
  let ?m = "snd (findPivot A i n)"
  let ?A1 = "swapRows i ?m n A" and ?B1 = "swapB i ?m B"
  let ?A' = "fst (elimStep n i (A, B))" and ?B' = "snd (elimStep n i (A, B))"
  define k where "k r = val (factor ?A1 i r)" for r
  note sq = finiteM_D(1) [OF fA] and fin = finiteM_D(2) [OF fA]
  note lB = finiteV_D(1) [OF fB] and finB = finiteV_D(2) [OF fB]
  from findPivot_range [OF i, of A] have m: "i \<le> ?m" "?m < n" by simp_all
  from swapRows_nth [OF sq m] have sq1: "squareM n ?A1"
    and nt1: "\<And>r c. ?A1 ! r ! c =
        (if i \<le> c \<and> c < n \<and> r = i then A ! ?m ! c
         else if i \<le> c \<and> c < n \<and> r = ?m then A ! i ! c else A ! r ! c)"
    by simp_all
  have zi: "val (A ! i ! c) = 0" and zm: "val (A ! ?m ! c) = 0" if "c < i" for c
    using lowerZero_nth [OF lz i that that] lowerZero_nth [OF lz m(2) that] that m(1)
    by (simp_all add: val_zero_entry)
  have fin1: "isFin (?A1 ! r ! c)" if "r < n" "c < n" for r c
    using that fin m i by (simp add: nt1)
  have M1: "mat ?A1 r c = (if r = i then mat A ?m c else if r = ?m then mat A i c else mat A r c)"
    if "r < n" "c < n" for r c
  proof (cases "i \<le> c")
    case True
    with that show ?thesis by (simp add: mat_def nt1)
  next
    case False
    then have "c < i" by simp
    from zi [OF this] zm [OF this] False show ?thesis by (simp add: mat_def nt1)
  qed
  have p1: "mat ?A1 i i = mat A ?m i" using M1 [OF i i] by simp
  with piv have p1': "val (?A1 ! i ! i) \<noteq> 0" by (simp add: mat_def)
  have fk: "isFin (factor ?A1 i r)" and vk: "k r = - mat ?A1 r i / mat ?A1 i i" if "r < n" for r
    using fin1 [OF that i] fin1 [OF i i] p1' by (simp_all add: factor_def k_def mat_def)
  have B1: "?B1 ! r = (if r = i then B ! ?m else if r = ?m then B ! i else B ! r)" for r
    using swapB_nth(1) [of i B ?m] i m lB by simp
  have finB1: "isFin (?B1 ! r)" if "r < n" for r
    using that finB m i by (simp add: B1)
  note st = elimStep_nth [OF sq lB i refl refl]
  have z1: "mat ?A1 i c = 0" if "c < i" for c
    using M1 [OF i less_trans [OF that i]] zm [OF that] by (simp add: mat_def)
  have M': "mat ?A' r c = (if i < r then mat ?A1 r c + k r * mat ?A1 i c else mat ?A1 r c)"
    and fin': "isFin (?A' ! r ! c)" if r: "r < n" and c: "c < n" for r c
  proof -
    consider (a) "\<not> i < r" | (b) "i < r" "c < i" | (c) "i < r" "c = i" | (d) "i < r" "i < c"
      by linarith
    then have "mat ?A' r c = (if i < r then mat ?A1 r c + k r * mat ?A1 i c else mat ?A1 r c)
        \<and> isFin (?A' ! r ! c)"
    proof cases
      case a
      with fin1 [OF r c] show ?thesis by (simp add: mat_def st(3))
    next
      case b
      with fin1 [OF r c] z1 [OF b(2)] show ?thesis by (simp add: mat_def st(3))
    next
      case c
      with r p1' vk [OF r] show ?thesis by (simp add: mat_def st(3))
    next
      case d
      with r \<open>c < n\<close> fin1 [OF r \<open>c < n\<close>] fin1 [OF i \<open>c < n\<close>] fk [OF r] show ?thesis
        by (simp add: mat_def st(3) k_def)
    qed
    then show "mat ?A' r c = (if i < r then mat ?A1 r c + k r * mat ?A1 i c else mat ?A1 r c)"
      and "isFin (?A' ! r ! c)" by simp_all
  qed
  have b': "vec ?B' r = (if i < r then vec ?B1 r + k r * vec ?B1 i else vec ?B1 r)"
    and finB': "isFin (?B' ! r)" if r: "r < n" for r
    using r finB1 [OF r] finB1 [OF i] fk [OF r] by (simp_all add: vec_def st(4) k_def)
  have b1: "vec ?B1 r = (if r = i then vec B ?m else if r = ?m then vec B i else vec B r)" for r
    by (simp add: vec_def B1)
  show "finiteM n ?A'" using st(1) fin' by (simp add: finiteM_nth)
  show "finiteV n ?B'" using st(2) finB' by (simp add: finiteV_nth)
  have "solves n (mat ?A') (vec ?B') f = solves n (mat ?A1) (vec ?B1) f"
    by (rule solves_row_add [OF i M' b'])
  also have "\<dots> = solves n (mat A) (vec B) f"
    by (rule solves_swap [OF i m(2) M1 b1])
  finally show "solves n (mat ?A') (vec ?B') f = solves n (mat A) (vec B) f" .
  have "solves n (mat ?A') (\<lambda>r. 0) f = solves n (mat ?A1) (\<lambda>r. 0) f"
    by (rule solves_row_add [OF i M', of _ "\<lambda>r. 0"]) simp_all
  also have "\<dots> = solves n (mat A) (\<lambda>r. 0) f"
    by (rule solves_swap [OF i m(2) M1]) simp_all
  finally show "solves n (mat ?A') (\<lambda>r. 0) f = solves n (mat A) (\<lambda>r. 0) f" .
  show "mat ?A' c c = mat A c c" if "c < i" for c
  proof -
    from that i have c: "c < n" by simp
    from that m(1) have "c \<noteq> i" "c \<noteq> ?m" by simp_all
    with M' [OF c c] M1 [OF c c] that show ?thesis by simp
  qed
  show "mat ?A' i i = mat A ?m i"
    using M' [OF i i] p1 by simp
qed

section \<open>Back-substitution and the correctness of the solver\<close>

text \<open>A loop that counts down.\<close>

lemma fold_rev_upt_inv:
  assumes "P n s" and "\<And>j t. j < n \<Longrightarrow> P (Suc j) t \<Longrightarrow> P j (f j t)"
  shows "P 0 (fold f (rev [0..<n]) s)"
proof -
  have "m \<le> n \<Longrightarrow> P m t \<Longrightarrow> P 0 (fold f (rev [0..<m]) t)" for m t
  proof (induction m arbitrary: t)
    case 0
    then show ?case by simp
  next
    case (Suc m)
    from Suc.prems have "P m (f m t)" by (intro assms(2)) simp_all
    with Suc.IH [of "f m t"] Suc.prems(1) show ?case by simp
  qed
  from this [OF order_refl assms(1)] show ?thesis .
qed

lemma backSum_val:
  assumes fA: "finiteM n A" and fx: "finiteV n x" and i: "i < n"
  shows "isFin (backSum A i n x) \<and>
     val (backSum A i n x) = (\<Sum>c = Suc i..<n. mat A i c * vec x c)"
proof -
  let ?P = "\<lambda>j s. isFin s \<and> val s = (\<Sum>c = Suc i..<j. mat A i c * vec x c)"
  have "?P n (fold (\<lambda>j sum. sum + A ! i ! j * x ! j) [i + 1..<n] 0)"
  proof (rule fold_upt_inv [where P = ?P])
    show "?P (i + 1) 0" by simp
    show "i + 1 \<le> n" using i by simp
  next
    fix j t assume j: "i + 1 \<le> j" "j < n" and P: "?P j t"
    from finiteM_D(2) [OF fA i j(2)] finiteV_D(2) [OF fx j(2)] P j(1)
    show "?P (Suc j) (t + A ! i ! j * x ! j)"
      by (simp add: mat_def vec_def)
  qed
  then show ?thesis by (simp add: backSum_def)
qed

lemma backSubst_sound:
  assumes fA: "finiteM n A" and fB: "finiteV n B" and lz: "lowerZero n n A"
    and diag: "\<And>c. c < n \<Longrightarrow> mat A c c \<noteq> 0"
  shows "finiteV n (backSubst A B n)"
    and "solves n (mat A) (vec B) (vec (backSubst A B n))"
proof -
  let ?P = "\<lambda>j x. finiteV n x \<and>
     (\<forall>r. j \<le> r \<and> r < n \<longrightarrow> (\<Sum>c = r..<n. mat A r c * vec x c) = vec B r)"
  have "?P 0 (fold (backStep A B n) (rev [0..<n]) (replicate n 0))"
  proof (rule fold_rev_upt_inv [where P = ?P])
    show "?P n (replicate n 0)" by (simp add: finiteV_nth)
  next
    fix j x assume j: "j < n" and P: "?P (Suc j) x"
    from P have fx: "finiteV n x"
      and eq: "\<And>r. Suc j \<le> r \<Longrightarrow> r < n \<Longrightarrow> (\<Sum>c = r..<n. mat A r c * vec x c) = vec B r"
      by simp_all
    let ?x' = "backStep A B n j x"
    let ?s = "backSum A j n x"
    from backSum_val [OF fA fx j] have fs: "isFin ?s"
      and vs: "val ?s = (\<Sum>c = Suc j..<n. mat A j c * vec x c)"
      by simp_all
    from diag [OF j] have d: "val (A ! j ! j) \<noteq> 0" by (simp add: mat_def)
    from finiteV_D(2) [OF fB j] fs finiteM_D(2) [OF fA j j] d
    have fq: "isFin ((B ! j - ?s) / (A ! j ! j))"
      and vq: "val ((B ! j - ?s) / (A ! j ! j)) = (vec B j - val ?s) / mat A j j"
      by (simp_all add: vec_def mat_def)
    from finiteV_D(1) [OF fx] j have lx: "j < length x" by simp
    have x'j: "vec ?x' j = (vec B j - val ?s) / mat A j j"
      using lx vq by (simp add: backStep_def vec_def)
    have x'c: "vec ?x' c = vec x c" if "c \<noteq> j" for c
      using that by (simp add: backStep_def vec_def)
    have fx': "finiteV n ?x'"
      using fx fq lx by (auto simp add: finiteV_nth backStep_def nth_list_update)
    have "(\<Sum>c = r..<n. mat A r c * vec ?x' c) = vec B r" if r: "j \<le> r" "r < n" for r
    proof (cases "r = j")
      case True
      have "(\<Sum>c = Suc j..<n. mat A j c * vec ?x' c) = (\<Sum>c = Suc j..<n. mat A j c * vec x c)"
        by (rule sum.cong) (simp_all add: x'c)
      with vs have "(\<Sum>c = j..<n. mat A j c * vec ?x' c) =
          mat A j j * ((vec B j - val ?s) / mat A j j) + val ?s"
        using j by (simp add: sum.atLeast_Suc_lessThan x'j)
      with diag [OF j] True show ?thesis by simp
    next
      case False
      with r have sr: "Suc j \<le> r" by simp
      have "(\<Sum>c = r..<n. mat A r c * vec ?x' c) = (\<Sum>c = r..<n. mat A r c * vec x c)"
        by (rule sum.cong) (use sr in \<open>simp_all add: x'c\<close>)
      with eq [OF sr r(2)] show ?thesis by simp
    qed
    with fx' show "?P j ?x'" by blast
  qed
  then have fin: "finiteV n (backSubst A B n)"
    and eq: "\<And>r. r < n \<Longrightarrow>
      (\<Sum>c = r..<n. mat A r c * vec (backSubst A B n) c) = vec B r"
    by (simp_all add: backSubst_def)
  show "finiteV n (backSubst A B n)" by (rule fin)
  have "(\<Sum>c<n. mat A r c * vec (backSubst A B n) c) = vec B r" if r: "r < n" for r
  proof -
    let ?g = "\<lambda>c. mat A r c * vec (backSubst A B n) c"
    have "sum ?g {0..<r} = 0"
      by (rule sum.neutral) (use lowerZero_nth [OF lz r] r in \<open>auto simp add: mat_def\<close>)
    moreover have "sum ?g {0..<r} + sum ?g {r..<n} = sum ?g {0..<n}"
      by (rule sum.atLeastLessThan_concat) (use r in simp_all)
    ultimately show ?thesis using eq [OF r] by (simp add: lessThan_atLeast0)
  qed
  then show "solves n (mat A) (vec B) (vec (backSubst A B n))"
    by (simp add: solves_def)
qed

text \<open>In a system with the solutions of a non-singular one, the pivot found is not zero.\<close>

lemma nonsingular_pivot:
  assumes ft: "finiteM n t" and jn: "j < n" and lz: "lowerZero n j t"
    and diag: "\<And>c. c < j \<Longrightarrow> mat t c c \<noteq> 0"
    and hom: "\<And>f. solves n (mat t) (\<lambda>r. 0) f = solves n (mat A) (\<lambda>r. 0) f"
    and ns: "nonsingular A" and n: "length A = n"
  shows "mat t (snd (findPivot t j n)) j \<noteq> 0"
proof
  assume "mat t (snd (findPivot t j n)) j = 0"
  from zero_pivot_kernel [OF ft jn lz diag this]
  obtain f where "solves n (mat t) (\<lambda>r. 0) f" and f: "f j = 1" by blast
  then have "solves (length A) (mat A) (\<lambda>r. 0) f" by (simp add: hom n)
  with ns jn have "f j = 0" by (simp add: nonsingular_def n)
  with f show False by simp
qed

text \<open>The invariant of the elimination on a finite non-singular system: after \<open>i\<close> steps
  the system is finite, has the solutions of the original one, is triangular in its first
  \<open>i\<close> columns and has non-zero pivots there.\<close>

lemma elim_prefix_sound:
  assumes fA: "finiteM n A" and fB: "finiteV n B" and ns: "nonsingular A" and i: "i \<le> n"
  shows "finiteM n (fst (fold (elimStep n) [0..<i] (A, B)))
     \<and> finiteV n (snd (fold (elimStep n) [0..<i] (A, B)))
     \<and> lowerZero n i (fst (fold (elimStep n) [0..<i] (A, B)))
     \<and> (\<forall>c<i. mat (fst (fold (elimStep n) [0..<i] (A, B))) c c \<noteq> 0)
     \<and> (\<forall>f. solves n (mat (fst (fold (elimStep n) [0..<i] (A, B))))
               (vec (snd (fold (elimStep n) [0..<i] (A, B)))) f = solves n (mat A) (vec B) f)
     \<and> (\<forall>f. solves n (mat (fst (fold (elimStep n) [0..<i] (A, B)))) (\<lambda>r. 0) f =
               solves n (mat A) (\<lambda>r. 0) f)"
proof -
  let ?P = "\<lambda>j (s :: matrix \<times> number list). finiteM n (fst s) \<and> finiteV n (snd s)
     \<and> lowerZero n j (fst s) \<and> (\<forall>c<j. mat (fst s) c c \<noteq> 0)
     \<and> (\<forall>f. solves n (mat (fst s)) (vec (snd s)) f = solves n (mat A) (vec B) f)
     \<and> (\<forall>f. solves n (mat (fst s)) (\<lambda>r. 0) f = solves n (mat A) (\<lambda>r. 0) f)"
  from finiteM_D(1) [OF fA] have n: "length A = n" by (simp add: squareM_nth)
  have "?P i (fold (elimStep n) [0..<i] (A, B))"
  proof (rule fold_upt_inv [where P = ?P])
    show "?P 0 (A, B)" using fA fB by (simp add: lowerZero_def)
    show "0 \<le> i" by simp
  next
    fix j s assume j: "j < i" and P: "?P j s"
    obtain t u where s: "s = (t, u)" by (cases s)
    from P s have ft: "finiteM n t" and fu: "finiteV n u" and lz: "lowerZero n j t"
      and diag: "\<And>c. c < j \<Longrightarrow> mat t c c \<noteq> 0"
      and sol: "\<And>f. solves n (mat t) (vec u) f = solves n (mat A) (vec B) f"
      and hom: "\<And>f. solves n (mat t) (\<lambda>r. 0) f = solves n (mat A) (\<lambda>r. 0) f"
      by simp_all
    from j i have jn: "j < n" by simp
    have piv: "mat t (snd (findPivot t j n)) j \<noteq> 0"
      by (rule nonsingular_pivot [OF ft jn lz diag hom ns n])
    note e = elimStep_finite [OF ft fu jn lz piv]
    have "mat (fst (elimStep n j (t, u))) c c \<noteq> 0" if "c < Suc j" for c
    proof (cases "c = j")
      case True
      with e(6) piv show ?thesis by simp
    next
      case False
      with that have "c < j" by simp
      with e(5) [OF this] diag [OF this] show ?thesis by simp
    qed
    moreover have "lowerZero n (Suc j) (fst (elimStep n j (t, u)))"
      by (rule elimStep_lowerZero [OF finiteM_D(1) [OF ft] finiteV_D(1) [OF fu] jn lz])
    ultimately show "?P (Suc j) (elimStep n j s)"
      using e(1,2) by (simp add: s e(3) e(4) sol hom)
  qed
  then show ?thesis by blast
qed

text \<open>The solver returns a finite solution of a finite non-singular system.\<close>

lemma solveMatrix_sound:
  assumes fA: "finiteM n A" and fB: "finiteV n B" and ns: "nonsingular A"
  shows "finiteV n (solveMatrix A B)"
    and "solves n (mat A) (vec B) (vec (solveMatrix A B))"
proof -
  from finiteM_D(1) [OF fA] have n: "length A = n" by (simp add: squareM_nth)
  obtain A' B' where e: "eliminate n (A, B) = (A', B')" by (cases "eliminate n (A, B)")
  then have f: "fold (elimStep n) [0..<n] (A, B) = (A', B')" by (simp add: eliminate_def)
  from elim_prefix_sound [OF fA fB ns order_refl]
  have fA': "finiteM n A'" and fB': "finiteV n B'" and lz: "lowerZero n n A'"
    and diag: "\<And>c. c < n \<Longrightarrow> mat A' c c \<noteq> 0"
    and sol: "\<And>f. solves n (mat A') (vec B') f = solves n (mat A) (vec B) f"
    unfolding f fst_conv snd_conv by blast+
  have s: "solveMatrix A B = backSubst A' B' n"
    by (simp add: solveMatrix_def n e)
  from backSubst_sound [OF fA' fB' lz diag] sol
  show "finiteV n (solveMatrix A B)" and "solves n (mat A) (vec B) (vec (solveMatrix A B))"
    unfolding s by simp_all
qed

lemma mulMV_solves:
  assumes "squareM n A" and "length B = n"
  shows "(mulMV A x = map val B) = solves n (mat A) (vec B) (vec x)"
proof -
  from assms(1) have l: "length A = n" and row: "\<And>r. r < n \<Longrightarrow> length (A ! r) = n"
    by (simp_all add: squareM_nth)
  have nth: "mulMV A x ! r = (\<Sum>c<n. mat A r c * vec x c)" if "r < n" for r
    using that l row by (simp add: mulMV_def mat_def vec_def)
  show ?thesis
  proof
    assume e: "mulMV A x = map val B"
    show "solves n (mat A) (vec B) (vec x)"
      unfolding solves_def
    proof (intro allI impI)
      fix r assume r: "r < n"
      from e have "mulMV A x ! r = map val B ! r" by simp
      with r assms(2) show "(\<Sum>c<n. mat A r c * vec x c) = vec B r"
        by (simp add: nth vec_def)
    qed
  next
    assume s: "solves n (mat A) (vec B) (vec x)"
    show "mulMV A x = map val B"
    proof (rule nth_equalityI)
      show "length (mulMV A x) = length (map val B)"
        using l assms(2) by (simp add: mulMV_def)
    next
      fix r assume "r < length (mulMV A x)"
      with l have r: "r < n" by (simp add: mulMV_def)
      with s assms(2) show "mulMV A x ! r = map val B ! r"
        by (simp add: nth solves_def vec_def)
    qed
  qed
qed

text \<open>
  Claim C3. For a finite non-singular \<open>n\<close> by \<open>n\<close> matrix \<open>A\<close> and a finite \<open>n\<close>-vector \<open>B\<close>
  (for every \<open>n\<close>), \<open>solveMatrix\<close> is the elimination followed by the back-substitution; at
  each column \<open>i\<close> the row exchanged into the pivot position is a row among \<open>i\<close> to \<open>n - 1\<close>
  with the largest absolute value in column \<open>i\<close>, and this pivot is not zero; the result
  is finite and satisfies \<open>A x = B\<close> for the original \<open>A\<close> and \<open>B\<close>, in exact real arithmetic.
\<close>

theorem solveMatrix_correct:
  assumes "finiteM n A" and "finiteV n B" and "nonsingular A"
  shows "finiteV n (solveMatrix A B) \<and> mulMV A (solveMatrix A B) = map val B
     \<and> solveMatrix A B = backSubst (fst (eliminate n (A, B))) (snd (eliminate n (A, B))) n
     \<and> (\<forall>i<n. let Ai = fst (fold (elimStep n) [0..<i] (A, B));
                   maxRow = snd (findPivot Ai i n)
               in i \<le> maxRow \<and> maxRow < n
                \<and> (\<forall>k. i \<le> k \<and> k < n \<longrightarrow> \<bar>val (Ai ! k ! i)\<bar> \<le> \<bar>val (Ai ! maxRow ! i)\<bar>)
                \<and> val (Ai ! maxRow ! i) \<noteq> 0
                \<and> swapRows i maxRow n Ai ! i = Ai ! maxRow)"
proof -
  note sq = finiteM_D(1) [OF assms(1)]
  then have n: "length A = n" by (simp add: squareM_nth)
  from solveMatrix_sound [OF assms]
  have 1: "finiteV n (solveMatrix A B)" and "solves n (mat A) (vec B) (vec (solveMatrix A B))"
    by simp_all
  then have 2: "mulMV A (solveMatrix A B) = map val B"
    by (simp add: mulMV_solves [OF sq finiteV_D(1) [OF assms(2)]])
  have 3: "solveMatrix A B = backSubst (fst (eliminate n (A, B))) (snd (eliminate n (A, B))) n"
    by (simp add: solveMatrix_def n split_beta)
  have 4: "let Ai = fst (fold (elimStep n) [0..<i] (A, B));
               maxRow = snd (findPivot Ai i n)
           in i \<le> maxRow \<and> maxRow < n
            \<and> (\<forall>k. i \<le> k \<and> k < n \<longrightarrow> \<bar>val (Ai ! k ! i)\<bar> \<le> \<bar>val (Ai ! maxRow ! i)\<bar>)
            \<and> val (Ai ! maxRow ! i) \<noteq> 0
            \<and> swapRows i maxRow n Ai ! i = Ai ! maxRow" if i: "i < n" for i
  proof -
    let ?Ai = "fst (fold (elimStep n) [0..<i] (A, B))"
    let ?m = "snd (findPivot ?Ai i n)"
    from i have "i \<le> n" by simp
    from elim_prefix_sound [OF assms this]
    have ft: "finiteM n ?Ai" and lz: "lowerZero n i ?Ai"
      and diag: "\<And>c. c < i \<Longrightarrow> mat ?Ai c c \<noteq> 0"
      and hom: "\<And>f. solves n (mat ?Ai) (\<lambda>r. 0) f = solves n (mat A) (\<lambda>r. 0) f"
      by blast+
    note sqi = finiteM_D(1) [OF ft]
    from finiteM_D(2) [OF ft] i have "\<forall>k<n. isFin (?Ai ! k ! i)" by simp
    note mx = findPivot_max [OF i this]
    note rg = findPivot_range [OF i, of ?Ai]
    from nonsingular_pivot [OF ft i lz diag hom assms(3) n]
    have piv: "val (?Ai ! ?m ! i) \<noteq> 0" by (simp add: mat_def)
    have "swapRows i ?m n ?Ai = swapWholeRows i ?m ?Ai"
      by (rule elimStep_whole(1) [OF sqi _ i lz, of "replicate n 0"]) simp
    moreover have "swapWholeRows i ?m ?Ai ! i = ?Ai ! ?m"
      using rg i sqi by (simp add: swapWholeRows_def squareM_nth nth_list_update)
    ultimately have sw: "swapRows i ?m n ?Ai ! i = ?Ai ! ?m" by simp
    from rg mx piv sw show ?thesis unfolding Let_def by blast
  qed
  from 1 2 3 4 show ?thesis by blast
qed


theorem solveMatrix_correct_witness:
  "finiteM 2 [[Fin 2, Fin 1], [Fin 1, Fin 3]] \<and> finiteV 2 [Fin 3, Fin 5]
   \<and> nonsingular [[Fin 2, Fin 1], [Fin 1, Fin 3]]
   \<and> finiteV 2 (solveMatrix [[Fin 2, Fin 1], [Fin 1, Fin 3]] [Fin 3, Fin 5])
   \<and> mulMV [[Fin 2, Fin 1], [Fin 1, Fin 3]] (solveMatrix [[Fin 2, Fin 1], [Fin 1, Fin 3]] [Fin 3, Fin 5])
       = [3, 5]"
proof -
  let ?A = "[[Fin 2, Fin 1], [Fin 1, Fin 3]]" and ?B = "[Fin 3, Fin 5]"
  have fA: "finiteM 2 ?A" by (simp add: finiteM_def squareM_def)
  have fB: "finiteV 2 ?B" by (simp add: finiteV_def)
  have ns: "nonsingular ?A"
    unfolding nonsingular_def
  proof (intro allI impI)
    fix f :: "nat \<Rightarrow> real" and c :: nat
    assume s: "solves (length ?A) (mat ?A) (\<lambda>r. 0) f" and c: "c < length ?A"
    have l: "length ?A = 2" by simp
    from s have S: "\<And>r. r < 2 \<Longrightarrow> (\<Sum>c<2. mat ?A r c * f c) = 0"
      unfolding l solves_def by blast
    from S [of 0] S [of 1] have "2 * f 0 + f 1 = 0" "f 0 + 3 * f 1 = 0"
      by (simp_all add: mat_def numeral_2_eq_2)
    then have "f 0 = 0" "f 1 = 0" by simp_all
    moreover from c have "c = 0 \<or> c = 1" by auto
    ultimately show "f c = 0" by auto
  qed
  from solveMatrix_correct [OF fA fB ns]
  have "finiteV 2 (solveMatrix ?A ?B)" and "mulMV ?A (solveMatrix ?A ?B) = map val ?B"
    by blast+
  with fA fB ns show ?thesis by simp
qed

section \<open>The homography of a quadrilateral with finite corners\<close>

lemma sum_8: "(\<Sum>c<8::nat. g c) = g 0 + g 1 + g 2 + g 3 + g 4 + g 5 + g 6 + (g 7 :: real)"
  by (simp add: eval_nat_numeral)

lemma all_less_8:
  "(\<forall>r<8::nat. P r) = (P 0 \<and> P 1 \<and> P 2 \<and> P 3 \<and> P 4 \<and> P 5 \<and> P 6 \<and> P 7)"
  by (simp add: eval_nat_numeral All_less_Suc conj_ac)

lemma round_Fin_nonneg: "0 \<le> r \<Longrightarrow> Math_round (Fin r) = Fin (of_int \<lfloor>r + 1 / 2\<rfloor>)"
  by (simp add: mkFin_def mkZero_def)

text \<open>The dimensions for finite corners.\<close>

lemma maxWidth_Fin:
  "maxWidth_of [\<lparr>px = Fin x0, py = Fin y0\<rparr>, \<lparr>px = Fin x1, py = Fin y1\<rparr>,
                \<lparr>px = Fin x2, py = Fin y2\<rparr>, \<lparr>px = Fin x3, py = Fin y3\<rparr>] =
     Fin (of_int \<lfloor>max (sqrt ((x1 - x0)\<^sup>2 + (y1 - y0)\<^sup>2)) (sqrt ((x2 - x3)\<^sup>2 + (y2 - y3)\<^sup>2)) + 1 / 2\<rfloor>)"
  by (simp add: maxWidth_of_def numeral_3_eq_3 numeral_2_eq_2 dist_Fin Math_max_Fin
      round_Fin_nonneg le_max_iff_disj del: Math_round.simps)

lemma maxHeight_Fin:
  "maxHeight_of [\<lparr>px = Fin x0, py = Fin y0\<rparr>, \<lparr>px = Fin x1, py = Fin y1\<rparr>,
                 \<lparr>px = Fin x2, py = Fin y2\<rparr>, \<lparr>px = Fin x3, py = Fin y3\<rparr>] =
     Fin (of_int \<lfloor>max (sqrt ((x3 - x0)\<^sup>2 + (y3 - y0)\<^sup>2)) (sqrt ((x2 - x1)\<^sup>2 + (y2 - y1)\<^sup>2)) + 1 / 2\<rfloor>)"
  by (simp add: maxHeight_of_def numeral_3_eq_3 numeral_2_eq_2 dist_Fin Math_max_Fin
      round_Fin_nonneg le_max_iff_disj del: Math_round.simps)

text \<open>The system of a quadrilateral, written out.\<close>

lemma buildSystem_explicit:
  "buildSystem [p0, p1, p2, p3] (dstPoints mw mh) =
     ([[0, 0, 1, 0, 0, 0, (- 0) * px p0, (- 0) * px p0],
       [0, 0, 0, 0, 0, 1, (- 0) * py p0, (- 0) * py p0],
       [mw, 0, 1, 0, 0, 0, (- mw) * px p1, (- 0) * px p1],
       [0, 0, 0, mw, 0, 1, (- mw) * py p1, (- 0) * py p1],
       [mw, mh, 1, 0, 0, 0, (- mw) * px p2, (- mh) * px p2],
       [0, 0, 0, mw, mh, 1, (- mw) * py p2, (- mh) * py p2],
       [0, mh, 1, 0, 0, 0, (- 0) * px p3, (- mh) * px p3],
       [0, 0, 0, 0, mh, 1, (- 0) * py p3, (- mh) * py p3]],
      [px p0, py p0, px p1, py p1, px p2, py p2, px p3, py p3])"
  by (simp add: buildSystem_def pushRows_def upt_4 dstPoints_def Let_def split_beta
      numeral_3_eq_3 numeral_2_eq_2)

text \<open>For finite corners and finite dimensions the system is finite, and its equations over
  the reals are these.\<close>

lemma quad_system:
  fixes w h x0 y0 x1 y1 x2 y2 x3 y3 :: real
  defines "ps \<equiv> [\<lparr>px = Fin x0, py = Fin y0\<rparr>, \<lparr>px = Fin x1, py = Fin y1\<rparr>,
                  \<lparr>px = Fin x2, py = Fin y2\<rparr>, \<lparr>px = Fin x3, py = Fin y3\<rparr>]"
  defines "S \<equiv> buildSystem ps (dstPoints (Fin w) (Fin h))"
  shows "finiteM 8 (fst S)" and "finiteV 8 (snd S)"
    and "map val (snd S) = [x0, y0, x1, y1, x2, y2, x3, y3]"
    and "solves 8 (mat (fst S)) b f =
      (f 2 = b 0 \<and> f 5 = b 1
       \<and> w * f 0 + f 2 - w * x1 * f 6 = b 2
       \<and> w * f 3 + f 5 - w * y1 * f 6 = b 3
       \<and> w * f 0 + h * f 1 + f 2 - w * x2 * f 6 - h * x2 * f 7 = b 4
       \<and> w * f 3 + h * f 4 + f 5 - w * y2 * f 6 - h * y2 * f 7 = b 5
       \<and> h * f 1 + f 2 - h * x3 * f 7 = b 6
       \<and> h * f 4 + f 5 - h * y3 * f 7 = b 7)"
proof -
  note S = S_def [unfolded ps_def buildSystem_explicit]
  show "finiteM 8 (fst S)"
    by (simp add: S finiteM_def squareM_def)
  show "finiteV 8 (snd S)"
    by (simp add: S finiteV_def)
  show "map val (snd S) = [x0, y0, x1, y1, x2, y2, x3, y3]"
    by (simp add: S)
  show "solves 8 (mat (fst S)) b f =
      (f 2 = b 0 \<and> f 5 = b 1
       \<and> w * f 0 + f 2 - w * x1 * f 6 = b 2
       \<and> w * f 3 + f 5 - w * y1 * f 6 = b 3
       \<and> w * f 0 + h * f 1 + f 2 - w * x2 * f 6 - h * x2 * f 7 = b 4
       \<and> w * f 3 + h * f 4 + f 5 - w * y2 * f 6 - h * y2 * f 7 = b 5
       \<and> h * f 1 + f 2 - h * x3 * f 7 = b 6
       \<and> h * f 4 + f 5 - h * y3 * f 7 = b 7)"
    unfolding solves_def sum_8 all_less_8
    by (simp add: S mat_def)
qed

text \<open>The solved coefficients of a quadrilateral with finite corners whose system is
  non-singular: they are finite and satisfy the eight equations.\<close>

lemma homography_solves:
  fixes x0 y0 x1 y1 x2 y2 x3 y3 :: real
  assumes ps: "ps = [\<lparr>px = Fin x0, py = Fin y0\<rparr>, \<lparr>px = Fin x1, py = Fin y1\<rparr>,
                     \<lparr>px = Fin x2, py = Fin y2\<rparr>, \<lparr>px = Fin x3, py = Fin y3\<rparr>]"
    and w: "maxWidth_of ps = Fin w" and h: "maxHeight_of ps = Fin h"
    and ns: "nonsingular (fst (buildSystem ps (dstPoints (maxWidth_of ps) (maxHeight_of ps))))"
  shows "finiteV 8 (homography ps)"
    and "vec (homography ps) 2 = x0 \<and> vec (homography ps) 5 = y0
       \<and> w * vec (homography ps) 0 + vec (homography ps) 2 - w * x1 * vec (homography ps) 6 = x1
       \<and> w * vec (homography ps) 3 + vec (homography ps) 5 - w * y1 * vec (homography ps) 6 = y1
       \<and> w * vec (homography ps) 0 + h * vec (homography ps) 1 + vec (homography ps) 2
           - w * x2 * vec (homography ps) 6 - h * x2 * vec (homography ps) 7 = x2
       \<and> w * vec (homography ps) 3 + h * vec (homography ps) 4 + vec (homography ps) 5
           - w * y2 * vec (homography ps) 6 - h * y2 * vec (homography ps) 7 = y2
       \<and> h * vec (homography ps) 1 + vec (homography ps) 2 - h * x3 * vec (homography ps) 7 = x3
       \<and> h * vec (homography ps) 4 + vec (homography ps) 5 - h * y3 * vec (homography ps) 7 = y3"
proof -
  let ?S = "buildSystem ps (dstPoints (Fin w) (Fin h))"
  note q = quad_system [where w = w and h = h and ?x0.0 = x0 and ?y0.0 = y0 and ?x1.0 = x1
      and ?y1.0 = y1 and ?x2.0 = x2 and ?y2.0 = y2 and ?x3.0 = x3 and ?y3.0 = y3, folded ps]
  have H: "homography ps = solveMatrix (fst ?S) (snd ?S)"
    by (simp add: homography_def computeH_def split_beta w h)
  from ns have ns': "nonsingular (fst ?S)" by (simp add: w h)
  note s = solveMatrix_sound [OF q(1) q(2) ns']
  from s(1) show "finiteV 8 (homography ps)" by (simp add: H)
  from q(3) have b: "vec (snd ?S) 0 = x0" "vec (snd ?S) 1 = y0" "vec (snd ?S) 2 = x1"
    "vec (snd ?S) 3 = y1" "vec (snd ?S) 4 = x2" "vec (snd ?S) 5 = y2" "vec (snd ?S) 6 = x3"
    "vec (snd ?S) 7 = y3"
    by (auto simp add: vec_def map_eq_Cons_conv)
  from s(2) show "vec (homography ps) 2 = x0 \<and> vec (homography ps) 5 = y0
       \<and> w * vec (homography ps) 0 + vec (homography ps) 2 - w * x1 * vec (homography ps) 6 = x1
       \<and> w * vec (homography ps) 3 + vec (homography ps) 5 - w * y1 * vec (homography ps) 6 = y1
       \<and> w * vec (homography ps) 0 + h * vec (homography ps) 1 + vec (homography ps) 2
           - w * x2 * vec (homography ps) 6 - h * x2 * vec (homography ps) 7 = x2
       \<and> w * vec (homography ps) 3 + h * vec (homography ps) 4 + vec (homography ps) 5
           - w * y2 * vec (homography ps) 6 - h * y2 * vec (homography ps) 7 = y2
       \<and> h * vec (homography ps) 1 + vec (homography ps) 2 - h * x3 * vec (homography ps) 7 = x3
       \<and> h * vec (homography ps) 4 + vec (homography ps) 5 - h * y3 * vec (homography ps) 7 = y3"
    unfolding q(4) H b .
qed

text \<open>The inverse map at a destination pixel, for finite coefficients and a non-zero
  denominator.\<close>

lemma srcCoord_finite:
  assumes fH: "finiteV 8 H"
    and d: "vec H 6 * real x + vec H 7 * real y + 1 \<noteq> 0"
  shows "isFin (fst (srcCoord H x y))"
    and "val (fst (srcCoord H x y)) =
      of_int \<lfloor>(vec H 0 * real x + vec H 1 * real y + vec H 2) /
               (vec H 6 * real x + vec H 7 * real y + 1) + 1 / 2\<rfloor>"
    and "isFin (snd (srcCoord H x y))"
    and "val (snd (srcCoord H x y)) =
      of_int \<lfloor>(vec H 3 * real x + vec H 4 * real y + vec H 5) /
               (vec H 6 * real x + vec H 7 * real y + 1) + 1 / 2\<rfloor>"
proof -
  note f = finiteV_D(2) [OF fH]
  have fh: "isFin (H ! 0)" "isFin (H ! 1)" "isFin (H ! 2)" "isFin (H ! 3)" "isFin (H ! 4)"
    "isFin (H ! 5)" "isFin (H ! 6)" "isFin (H ! 7)"
    by (simp_all add: f)
  let ?den = "H ! 6 * Fin (real x) + H ! 7 * Fin (real y) + 1"
  let ?u = "(H ! 0 * Fin (real x) + H ! 1 * Fin (real y) + H ! 2) / ?den"
  let ?v = "(H ! 3 * Fin (real x) + H ! 4 * Fin (real y) + H ! 5) / ?den"
  from fh have fd: "isFin ?den" and vd: "val ?den = vec H 6 * real x + vec H 7 * real y + 1"
    by (simp_all add: vec_def)
  with d fh have fu: "isFin ?u"
    and vu: "val ?u = (vec H 0 * real x + vec H 1 * real y + vec H 2) /
                       (vec H 6 * real x + vec H 7 * real y + 1)"
    and fv: "isFin ?v"
    and vv: "val ?v = (vec H 3 * real x + vec H 4 * real y + vec H 5) /
                       (vec H 6 * real x + vec H 7 * real y + 1)"
    by (simp_all add: vec_def)
  have s: "srcCoord H x y = (Math_round ?u, Math_round ?v)"
    by (simp add: srcCoord_def Let_def)
  from fin_round [OF fu] fin_round [OF fv]
  show "isFin (fst (srcCoord H x y))"
    and "val (fst (srcCoord H x y)) =
      of_int \<lfloor>(vec H 0 * real x + vec H 1 * real y + vec H 2) /
               (vec H 6 * real x + vec H 7 * real y + 1) + 1 / 2\<rfloor>"
    and "isFin (snd (srcCoord H x y))"
    and "val (snd (srcCoord H x y)) =
      of_int \<lfloor>(vec H 3 * real x + vec H 4 * real y + vec H 5) /
               (vec H 6 * real x + vec H 7 * real y + 1) + 1 / 2\<rfloor>"
    unfolding s fst_conv snd_conv vu vv by simp_all
qed

lemma inBounds_finite:
  assumes "isFin (fst s)" and "isFin (snd s)"
  shows "inBounds sW sH s =
     (0 \<le> val (fst s) \<and> val (fst s) < real sW \<and> 0 \<le> val (snd s) \<and> val (snd s) < real sH)"
  using assms by (cases s) (simp add: inBounds_def)

text \<open>The axis-aligned rectangle with corners \<open>(0,0)\<close>, \<open>(w,0)\<close>, \<open>(w,h)\<close>, \<open>(0,h)\<close>, mapped
  to the destination rectangle of the same size: the system is non-singular and its
  solution is the identity map.\<close>

lemma rect_equations:
  fixes w h :: real
  assumes w: "w \<noteq> 0" and h: "h \<noteq> 0"
    and b: "b0 = 0" "b1 = 0" "b2 = w * k" "b3 = 0" "b4 = w * k" "b5 = h * k"
      "b6 = 0" "b7 = h * k"
    and e: "f 2 = b0 \<and> f 5 = b1
       \<and> w * f 0 + f 2 - w * w * f 6 = b2
       \<and> w * f 3 + f 5 - w * 0 * f 6 = b3
       \<and> w * f 0 + h * f 1 + f 2 - w * w * f 6 - h * w * f 7 = b4
       \<and> w * f 3 + h * f 4 + f 5 - w * h * f 6 - h * h * f 7 = b5
       \<and> h * f 1 + f 2 - h * 0 * f 7 = b6
       \<and> h * f 4 + f 5 - h * h * f 7 = b7"
  shows "f 0 = k \<and> f 1 = 0 \<and> f 2 = 0 \<and> f 3 = 0 \<and> f 4 = k \<and> f 5 = 0 \<and> f 6 = 0 \<and> f (7::nat) = (0::real)"
proof -
  from e have f2: "f 2 = b0" and f5: "f 5 = b1"
    and e2: "w * f 0 + f 2 - w * w * f 6 = b2"
    and e3: "w * f 3 + f 5 - w * 0 * f 6 = b3"
    and e4: "w * f 0 + h * f 1 + f 2 - w * w * f 6 - h * w * f 7 = b4"
    and e5: "w * f 3 + h * f 4 + f 5 - w * h * f 6 - h * h * f 7 = b5"
    and e6: "h * f 1 + f 2 - h * 0 * f 7 = b6"
    and e7: "h * f 4 + f 5 - h * h * f 7 = b7"
    by blast+
  from f2 f5 b have f2: "f 2 = 0" and f5: "f 5 = 0" by simp_all
  from e3 f5 w b have f3: "f 3 = 0" by simp
  from e6 f2 h b have f1: "f 1 = 0" by simp
  then have hf1: "h * f 1 = 0" by simp
  from e2 e4 hf1 b have "h * w * f 7 = 0" by linarith
  with w h have f7: "f 7 = 0" by simp
  from e7 f5 f7 b have "h * f 4 = h * k" by simp
  with h have f4: "f 4 = k" by simp
  from e5 f3 f4 f5 f7 b have "w * h * f 6 = 0" by simp
  with w h have f6: "f 6 = 0" by simp
  from e2 f2 f6 b have "w * f 0 = w * k" by simp
  with w have f0: "f 0 = k" by simp
  from f0 f1 f2 f3 f4 f5 f6 f7 show ?thesis by simp
qed

lemma rect_nonsingular:
  fixes w h :: real
  assumes "w \<noteq> 0" and "h \<noteq> 0"
  shows "nonsingular (fst (buildSystem
      [\<lparr>px = Fin 0, py = Fin 0\<rparr>, \<lparr>px = Fin w, py = Fin 0\<rparr>,
       \<lparr>px = Fin w, py = Fin h\<rparr>, \<lparr>px = Fin 0, py = Fin h\<rparr>] (dstPoints (Fin w) (Fin h))))"
proof -
  let ?A = "fst (buildSystem
      [\<lparr>px = Fin 0, py = Fin 0\<rparr>, \<lparr>px = Fin w, py = Fin 0\<rparr>,
       \<lparr>px = Fin w, py = Fin h\<rparr>, \<lparr>px = Fin 0, py = Fin h\<rparr>] (dstPoints (Fin w) (Fin h)))"
  note q = quad_system [where w = w and h = h and ?x0.0 = 0 and ?y0.0 = 0 and ?x1.0 = w
      and ?y1.0 = 0 and ?x2.0 = w and ?y2.0 = h and ?x3.0 = 0 and ?y3.0 = h]
  from finiteM_D(1) [OF q(1)] have l: "length ?A = 8" by (simp add: squareM_nth)
  have "f c = 0" if s: "solves 8 (mat ?A) (\<lambda>r. 0) f" and c: "c < 8" for f c
  proof -
    have "f 0 = 0 \<and> f 1 = 0 \<and> f 2 = 0 \<and> f 3 = 0 \<and> f 4 = 0 \<and> f 5 = 0 \<and> f 6 = 0 \<and> f 7 = 0"
      by (rule rect_equations [OF assms _ _ _ _ _ _ _ _ s [unfolded q(4)]]) simp_all
    then have "\<forall>c<8. f c = 0" unfolding all_less_8 .
    with c show ?thesis by simp
  qed
  then show ?thesis unfolding nonsingular_def l by blast
qed

lemma floor_nat_half: "\<lfloor>real n + 1 / 2\<rfloor> = int n"
  by (rule floor_unique) simp_all

lemma rect_dims:
  "maxWidth_of [\<lparr>px = Fin 0, py = Fin 0\<rparr>, \<lparr>px = Fin (real W), py = Fin 0\<rparr>,
                \<lparr>px = Fin (real W), py = Fin (real H)\<rparr>, \<lparr>px = Fin 0, py = Fin (real H)\<rparr>] = Fin (real W)"
  "maxHeight_of [\<lparr>px = Fin 0, py = Fin 0\<rparr>, \<lparr>px = Fin (real W), py = Fin 0\<rparr>,
                 \<lparr>px = Fin (real W), py = Fin (real H)\<rparr>, \<lparr>px = Fin 0, py = Fin (real H)\<rparr>] = Fin (real H)"
  by (simp_all add: maxWidth_Fin maxHeight_Fin floor_nat_half)

text \<open>The solved coefficients of the rectangle are those of the identity map.\<close>

lemma rect_homography:
  assumes "0 < W" and "0 < H"
  defines "ps \<equiv> [\<lparr>px = Fin 0, py = Fin 0\<rparr>, \<lparr>px = Fin (real W), py = Fin 0\<rparr>,
                  \<lparr>px = Fin (real W), py = Fin (real H)\<rparr>, \<lparr>px = Fin 0, py = Fin (real H)\<rparr>]"
  shows "finiteV 8 (homography ps)"
    and "map val (homography ps) = [1, 0, 0, 0, 1, 0, 0, 0]"
proof -
  from assms(1,2) have wh: "real W \<noteq> 0" "real H \<noteq> 0" by simp_all
  have ns: "nonsingular (fst (buildSystem ps (dstPoints (maxWidth_of ps) (maxHeight_of ps))))"
    unfolding ps_def rect_dims by (rule rect_nonsingular [OF wh])
  note hs = homography_solves [OF ps_def [THEN meta_eq_to_obj_eq] _ _ ns, unfolded ps_def rect_dims,
      OF refl refl, folded ps_def]
  show f: "finiteV 8 (homography ps)" by (rule hs(1))
  have "vec (homography ps) 0 = 1 \<and> vec (homography ps) 1 = 0 \<and> vec (homography ps) 2 = 0
      \<and> vec (homography ps) 3 = 0 \<and> vec (homography ps) 4 = 1 \<and> vec (homography ps) 5 = 0
      \<and> vec (homography ps) 6 = 0 \<and> vec (homography ps) 7 = 0"
    by (rule rect_equations [OF wh _ _ _ _ _ _ _ _ hs(2)]) simp_all
  then have "\<forall>c<8. map val (homography ps) ! c = [1, 0, 0, 0, 1, 0, 0, 0] ! c"
    unfolding all_less_8 using finiteV_D(1) [OF f] by (simp add: vec_def)
  with finiteV_D(1) [OF f] show "map val (homography ps) = [1, 0, 0, 0, 1, 0, 0, 0]"
    by (intro nth_equalityI) simp_all
qed

text \<open>
  Claim C8. For every quadrilateral with finite corners whose system is non-singular, the
  solved coefficients are finite with \<open>h2 = p0.x\<close> and \<open>h5 = p0.y\<close>; at the destination pixel
  \<open>(0,0)\<close> the denominator is 1 and the inverse map yields exactly \<open>p0\<close>.
\<close>

theorem corner_correspondence:
  fixes x0 y0 x1 y1 x2 y2 x3 y3 :: real
  assumes ps: "ps = [\<lparr>px = Fin x0, py = Fin y0\<rparr>, \<lparr>px = Fin x1, py = Fin y1\<rparr>,
                     \<lparr>px = Fin x2, py = Fin y2\<rparr>, \<lparr>px = Fin x3, py = Fin y3\<rparr>]"
    and ns: "nonsingular (fst (buildSystem ps (dstPoints (maxWidth_of ps) (maxHeight_of ps))))"
  shows "let H = homography ps;
             denom = H ! 6 * Fin 0 + H ! 7 * Fin 0 + 1;
             u = (H ! 0 * Fin 0 + H ! 1 * Fin 0 + H ! 2) / denom;
             v = (H ! 3 * Fin 0 + H ! 4 * Fin 0 + H ! 5) / denom
         in finiteV 8 H \<and> val (H ! 2) = x0 \<and> val (H ! 5) = y0
          \<and> isFin denom \<and> val denom = 1
          \<and> isFin u \<and> val u = x0 \<and> isFin v \<and> val v = y0"
proof -
  obtain w h where w: "maxWidth_of ps = Fin w" and h: "maxHeight_of ps = Fin h"
    unfolding ps maxWidth_Fin maxHeight_Fin by blast
  note hs = homography_solves [OF ps w h ns]
  define H where "H = homography ps"
  note f = finiteV_D(2) [OF hs(1), folded H_def]
  have fh: "isFin (H ! 0)" "isFin (H ! 1)" "isFin (H ! 2)" "isFin (H ! 3)" "isFin (H ! 4)"
    "isFin (H ! 5)" "isFin (H ! 6)" "isFin (H ! 7)"
    by (simp_all add: f)
  from hs(2) have v2: "val (H ! 2) = x0" and v5: "val (H ! 5) = y0"
    by (simp_all add: H_def vec_def)
  let ?den = "H ! 6 * Fin 0 + H ! 7 * Fin 0 + 1"
  from fh have fd: "isFin ?den" and vd: "val ?den = 1" by simp_all
  from fh fd vd v2 have fu: "isFin ((H ! 0 * Fin 0 + H ! 1 * Fin 0 + H ! 2) / ?den)"
    and vu: "val ((H ! 0 * Fin 0 + H ! 1 * Fin 0 + H ! 2) / ?den) = x0"
    by simp_all
  from fh fd vd v5 have fv: "isFin ((H ! 3 * Fin 0 + H ! 4 * Fin 0 + H ! 5) / ?den)"
    and vv: "val ((H ! 3 * Fin 0 + H ! 4 * Fin 0 + H ! 5) / ?den) = y0"
    by simp_all
  from hs(1) v2 v5 fd vd fu vu fv vv show ?thesis
    unfolding Let_def H_def [symmetric] by blast
qed

theorem corner_correspondence_witness:
  "nonsingular (fst (buildSystem
       [\<lparr>px = Fin 0, py = Fin 0\<rparr>, \<lparr>px = Fin 3, py = Fin 0\<rparr>,
        \<lparr>px = Fin 3, py = Fin 2\<rparr>, \<lparr>px = Fin 0, py = Fin 2\<rparr>]
       (dstPoints
         (maxWidth_of [\<lparr>px = Fin 0, py = Fin 0\<rparr>, \<lparr>px = Fin 3, py = Fin 0\<rparr>,
                       \<lparr>px = Fin 3, py = Fin 2\<rparr>, \<lparr>px = Fin 0, py = Fin 2\<rparr>])
         (maxHeight_of [\<lparr>px = Fin 0, py = Fin 0\<rparr>, \<lparr>px = Fin 3, py = Fin 0\<rparr>,
                        \<lparr>px = Fin 3, py = Fin 2\<rparr>, \<lparr>px = Fin 0, py = Fin 2\<rparr>]))))
   \<and> val (homography [\<lparr>px = Fin 0, py = Fin 0\<rparr>, \<lparr>px = Fin 3, py = Fin 0\<rparr>,
                        \<lparr>px = Fin 3, py = Fin 2\<rparr>, \<lparr>px = Fin 0, py = Fin 2\<rparr>] ! 2) = 0
   \<and> val (homography [\<lparr>px = Fin 0, py = Fin 0\<rparr>, \<lparr>px = Fin 3, py = Fin 0\<rparr>,
                        \<lparr>px = Fin 3, py = Fin 2\<rparr>, \<lparr>px = Fin 0, py = Fin 2\<rparr>] ! 5) = 0"
proof -
  let ?ps = "[\<lparr>px = Fin 0, py = Fin 0\<rparr>, \<lparr>px = Fin 3, py = Fin 0\<rparr>,
        \<lparr>px = Fin 3, py = Fin 2\<rparr>, \<lparr>px = Fin 0, py = Fin 2\<rparr>]"
  have d: "maxWidth_of ?ps = Fin 3" "maxHeight_of ?ps = Fin 2"
    using rect_dims [of 3 2] by simp_all
  have ns: "nonsingular (fst (buildSystem ?ps (dstPoints (maxWidth_of ?ps) (maxHeight_of ?ps))))"
    unfolding d by (rule rect_nonsingular) simp_all
  from corner_correspondence [OF refl ns]
  have "val (homography ?ps ! 2) = 0" "val (homography ?ps ! 5) = 0"
    unfolding Let_def by blast+
  with ns show ?thesis by blast
qed

section \<open>The identity property\<close>

lemma createImageData_nat:
  assumes "0 < W" and "0 < H"
  shows "createImageData (Fin (real W)) (Fin (real H)) =
     Inr \<lparr>rwidth = W, rheight = H, rdata = replicate (4 * W * H) 0\<rparr>"
  using assms by (simp add: createImageData_def)

text \<open>With the coefficients of the identity map every destination pixel is mapped to the
  source pixel with the same coordinates.\<close>

lemma identity_srcCoord:
  assumes fH: "finiteV 8 H" and id: "map val H = [1, 0, 0, 0, 1, 0, 0, 0]"
  shows "isFin (fst (srcCoord H x y))" and "val (fst (srcCoord H x y)) = real x"
    and "isFin (snd (srcCoord H x y))" and "val (snd (srcCoord H x y)) = real y"
proof -
  have "vec H c = map val H ! c" if "c < 8" for c
    using that finiteV_D(1) [OF fH] by (simp add: vec_def)
  then have v: "vec H 0 = 1" "vec H 1 = 0" "vec H 2 = 0" "vec H 3 = 0" "vec H 4 = 1"
    "vec H 5 = 0" "vec H 6 = 0" "vec H 7 = 0"
    by (simp_all add: id)
  have d: "vec H 6 * real x + vec H 7 * real y + 1 \<noteq> 0" by (simp add: v)
  from srcCoord_finite [OF fH d, unfolded v]
  show "isFin (fst (srcCoord H x y))" and "val (fst (srcCoord H x y)) = real x"
    and "isFin (snd (srcCoord H x y))" and "val (snd (srcCoord H x y)) = real y"
    by (simp_all add: floor_nat_half)
qed

lemma identity_mapPixels:
  assumes fH: "finiteV 8 H" and id: "map val H = [1, 0, 0, 0, 1, 0, 0, 0]"
    and sd: "length sd = 4 * W * H'" and d: "length d = 4 * W * H'"
  shows "mapPixels H sd W H' W H' d = sd"
proof (rule nth_equalityI)
  note m = mapPixels_nth [OF d, of H sd W H']
  from m sd d show "length (mapPixels H sd W H' W H' d) = length sd" by simp
  fix p assume "p < length (mapPixels H sd W H' W H' d)"
  with m d have p: "p < 4 * W * H'" by simp
  let ?x = "p div 4 mod W" and ?y = "p div 4 div W"
  from p have W: "0 < W" by (cases W) simp_all
  then have x: "?x < W" by simp
  from p have "p div 4 < W * H'" by simp
  then have y: "?y < H'" by (simp add: less_mult_imp_div_less mult.commute)
  note s = identity_srcCoord [OF fH id, of ?x ?y]
  have ib: "inBounds W H' (srcCoord H ?x ?y)"
    using x y by (simp add: inBounds_finite [OF s(1) s(3)] s(2) s(4))
  have ix: "toIndex (fst (srcCoord H ?x ?y)) = ?x" and iy: "toIndex (snd (srcCoord H ?x ?y)) = ?y"
    by (simp_all add: toIndex_def s(2) s(4))
  have "?y * W + ?x = p div 4" by (rule div_mult_mod_eq)
  then have e: "(?y * W + ?x) * 4 + p mod 4 = p"
    by (simp only: div_mult_mod_eq)
  have "sourceByte H sd W ?x ?y (p mod 4) =
      sd ! ((toIndex (snd (srcCoord H ?x ?y)) * W + toIndex (fst (srcCoord H ?x ?y))) * 4 + p mod 4)"
    by (simp only: sourceByte_def split_beta Let_def)
  then have "sourceByte H sd W ?x ?y (p mod 4) = sd ! p"
    unfolding ix iy e .
  with m p d ib show "mapPixels H sd W H' W H' d ! p = sd ! p" by simp
qed

text \<open>
  Claim C5. For a source raster of dimensions \<open>W > 0\<close> and \<open>H > 0\<close>, rectifying with the
  quadrilateral \<open>(0,0)\<close>, \<open>(W,0)\<close>, \<open>(W,H)\<close>, \<open>(0,H)\<close> gives \<open>maxWidth = W\<close> and
  \<open>maxHeight = H\<close>, the solved coefficients are finite with the values
  \<open>[1,0,0,0,1,0,0,0]\<close> of the identity map, and the returned raster is the source raster.
\<close>

theorem identity_rectification:
  assumes "0 < W" and "0 < H" and "wfRaster img" and "rwidth img = W" and "rheight img = H"
    and "ctx_ok cv" and "tempCtx_ok cv"
    and "ps = [\<lparr>px = Fin 0, py = Fin 0\<rparr>, \<lparr>px = Fin (real W), py = Fin 0\<rparr>,
               \<lparr>px = Fin (real W), py = Fin (real H)\<rparr>, \<lparr>px = Fin 0, py = Fin (real H)\<rparr>]"
  shows "maxWidth_of ps = Fin (real W) \<and> maxHeight_of ps = Fin (real H)
       \<and> list_all isFin (homography ps) \<and> map val (homography ps) = [1, 0, 0, 0, 1, 0, 0, 0]
       \<and> warpPerspective cv img ps = Inr img"
proof -
  note ps = assms(8)
  have dims: "maxWidth_of ps = Fin (real W)" "maxHeight_of ps = Fin (real H)"
    unfolding ps by (rule rect_dims)+
  note h = rect_homography [OF assms(1,2), folded ps]
  let ?r = "\<lparr>rwidth = W, rheight = H, rdata = replicate (4 * W * H) 0\<rparr>"
  have c: "createImageData (maxWidth_of ps) (maxHeight_of ps) = Inr ?r"
    unfolding dims by (rule createImageData_nat [OF assms(1,2)])
  have l: "4 \<le> length ps" by (simp add: ps)
  from assms(1,2,4,5) have pos: "0 < rwidth img" "0 < rheight img" by simp_all
  have len: "length (rdata img) = 4 * W * H"
    using assms(3,4,5) by (simp add: wfRaster_def)
  have "fillWhite (replicate (4 * W * H) 0) = replicate (4 * (W * H)) 255"
    by (rule fillWhite_replicate) (simp add: mult.assoc)
  then have lw: "length (fillWhite (replicate (4 * W * H) 0)) = 4 * W * H"
    by simp
  have "warpPerspective cv img ps =
      Inr (?r\<lparr>rdata := mapPixels (homography ps) (rdata img) (rwidth img) (rheight img)
                  (rwidth ?r) (rheight ?r) (fillWhite (rdata ?r))\<rparr>)"
    by (rule warpPerspective_success [OF l assms(6,7) pos c])
  also have "mapPixels (homography ps) (rdata img) (rwidth img) (rheight img)
                  (rwidth ?r) (rheight ?r) (fillWhite (rdata ?r)) = rdata img"
    using identity_mapPixels [OF h len lw] by (simp add: assms(4,5))
  also have "?r\<lparr>rdata := rdata img\<rparr> = img"
    using assms(4,5) by simp
  finally have "warpPerspective cv img ps = Inr img" .
  with dims h show ?thesis by (simp add: finiteV_def)
qed

theorem identity_rectification_witness:
  "(0::nat) < 1 \<and> wfRaster \<lparr>rwidth = 1, rheight = 1, rdata = [10, 20, 30, 255]\<rparr>
   \<and> warpPerspective \<lparr>ctx_ok = True, tempCtx_ok = True\<rparr>
       \<lparr>rwidth = 1, rheight = 1, rdata = [10, 20, 30, 255]\<rparr>
       [\<lparr>px = Fin 0, py = Fin 0\<rparr>, \<lparr>px = Fin 1, py = Fin 0\<rparr>,
        \<lparr>px = Fin 1, py = Fin 1\<rparr>, \<lparr>px = Fin 0, py = Fin 1\<rparr>] =
     Inr \<lparr>rwidth = 1, rheight = 1, rdata = [10, 20, 30, 255]\<rparr>
   \<and> map val (homography [\<lparr>px = Fin 0, py = Fin 0\<rparr>, \<lparr>px = Fin 1, py = Fin 0\<rparr>,
        \<lparr>px = Fin 1, py = Fin 1\<rparr>, \<lparr>px = Fin 0, py = Fin 1\<rparr>]) = [1, 0, 0, 0, 1, 0, 0, 0]"
proof -
  let ?img = "\<lparr>rwidth = 1, rheight = 1, rdata = [10, 20, 30, 255 :: byte]\<rparr>"
  let ?cv = "\<lparr>ctx_ok = True, tempCtx_ok = True\<rparr>"
  have wf: "wfRaster ?img" by (simp add: wfRaster_def)
  have p: "(0::nat) < 1" by simp
  have ps: "[\<lparr>px = Fin 0, py = Fin 0\<rparr>, \<lparr>px = Fin 1, py = Fin 0\<rparr>,
        \<lparr>px = Fin 1, py = Fin 1\<rparr>, \<lparr>px = Fin 0, py = Fin 1\<rparr>] =
     [\<lparr>px = Fin 0, py = Fin 0\<rparr>, \<lparr>px = Fin (real (1::nat)), py = Fin 0\<rparr>,
        \<lparr>px = Fin (real (1::nat)), py = Fin (real (1::nat))\<rparr>, \<lparr>px = Fin 0, py = Fin (real (1::nat))\<rparr>]"
    by simp
  from identity_rectification [OF p p wf _ _ _ _ ps, of ?cv] wf p show ?thesis
    by simp
qed

end
